theory Spec2Isabelle
  imports Main "HOL-Library.Sublist"
begin

section \<open>The account pool (account_manager.py)\<close>

text \<open>
  An \<open>Account\<close> is the dataclass of account_manager.py, field by field. Strings are
  lists of characters, one \<open>char\<close> per character of the Python string. The pool is the
  list \<open>AccountManager.accounts\<close>, in insertion order; an \<open>Account\<close> object held in
  a local variable is the element at its position in that list, so assigning to one of
  its attributes is a list update at that position.

  The account file mirrors the list: every mutating method ends in \<open>save_accounts\<close>
  and every reading method starts with \<open>load_accounts\<close>, which then reads back what was
  written. The model keeps the list only, and both calls leave it as it is.
  \<open>uuid.uuid4()\<close> and \<open>datetime.now()\<close> are inputs of \<open>add_account\<close>.
\<close>

record account =
  acc_id :: string
  refresh_token :: string
  client_id :: string
  client_secret :: string
  profile_arn :: "string option"
  name :: "string option"
  is_active :: bool
  created_at :: string

text \<open>The loop of \<open>get_account_by_id\<close>: the first account with the id, and its position.\<close>

fun index_of :: "string \<Rightarrow> 'a account_scheme list \<Rightarrow> nat option" where
  "index_of account_id [] = None"
| "index_of account_id (acc # accs) =
     (if acc_id acc = account_id then Some 0
      else map_option Suc (index_of account_id accs))"

definition get_account_by_id ::
  "'a account_scheme list \<Rightarrow> string \<Rightarrow> 'a account_scheme option" where
  "get_account_by_id accounts account_id =
     map_option (\<lambda>i. accounts ! i) (index_of account_id accounts)"

text \<open>
  \<open>get_active_account\<close>: the first account flagged active, else the first account,
  else nothing.
\<close>

definition get_active_account :: "'a account_scheme list \<Rightarrow> 'a account_scheme option" where
  "get_active_account accounts =
     (case find is_active accounts of
        Some acc \<Rightarrow> Some acc
      | None \<Rightarrow> (case accounts of [] \<Rightarrow> None | acc # _ \<Rightarrow> Some acc))"

text \<open>Decimal digits of a number, as an f-string prints it.\<close>

fun str_nat :: "nat \<Rightarrow> string" where
  "str_nat n =
     (if n < 10 then [char_of (48 + n)]
      else str_nat (n div 10) @ [char_of (48 + n mod 10)])"

declare str_nat.simps [simp del]

text \<open>
  The default alias is the two-character label of the source, a space and the
  ordinal; the label is written as its UTF-8 bytes.
\<close>

definition default_name :: "nat \<Rightarrow> string" where
  "default_name n =
     [CHR 0xE8, CHR 0xB4, CHR 0xA6, CHR 0xE5, CHR 0x8F, CHR 0xB7] @ '' '' @ str_nat n"

text \<open>
  \<open>add_account\<close>: the new account is active exactly when the pool was empty;
  \<open>name or default\<close> takes the default for \<open>None\<close> and for the empty string.
\<close>

definition add_account ::
  "string \<Rightarrow> string \<Rightarrow> string \<Rightarrow> string \<Rightarrow> string \<Rightarrow> string option \<Rightarrow> string option
     \<Rightarrow> account list \<Rightarrow> account \<times> account list" where
  "add_account new_id now rt cid cs parn nm accounts =
     (let account =
        \<lparr> acc_id = new_id, refresh_token = rt, client_id = cid, client_secret = cs,
          profile_arn = parn,
          name = Some (case nm of
                         None \<Rightarrow> default_name (length accounts + 1)
                       | Some n \<Rightarrow> if n = [] then default_name (length accounts + 1) else n),
          is_active = (length accounts = 0),
          created_at = now \<rparr>
      in (account, accounts @ [account]))"

text \<open>
  \<open>delete_account\<close>: \<open>list.remove\<close> drops the first element equal to the account
  found; if that account was active and accounts remain, the first one is activated.
\<close>

definition delete_account :: "string \<Rightarrow> account list \<Rightarrow> bool \<times> account list" where
  "delete_account account_id accounts =
     (case get_account_by_id accounts account_id of
        None \<Rightarrow> (False, accounts)
      | Some account \<Rightarrow>
          (let rest = remove1 account accounts
           in if is_active account \<and> rest \<noteq> []
              then (True, rest[0 := (rest ! 0)\<lparr>is_active := True\<rparr>])
              else (True, rest)))"

text \<open>
  \<open>activate_account\<close>: every flag is cleared, then the flag of the account found is
  set.
\<close>

definition activate_account :: "string \<Rightarrow> account list \<Rightarrow> bool \<times> account list" where
  "activate_account account_id accounts =
     (case index_of account_id accounts of
        None \<Rightarrow> (False, accounts)
      | Some i \<Rightarrow>
          (let cleared = map (\<lambda>acc. acc\<lparr>is_active := False\<rparr>) accounts
           in (True, cleared[i := (cleared ! i)\<lparr>is_active := True\<rparr>])))"

text \<open>A call of one of the three mutating methods, and a sequence of calls.\<close>

datatype pool_op =
    Add string string string string string "string option" "string option"
  | Delete string
  | Activate string

fun apply_op :: "pool_op \<Rightarrow> account list \<Rightarrow> account list" where
  "apply_op (Add new_id now rt cid cs parn nm) accounts =
     snd (add_account new_id now rt cid cs parn nm accounts)"
| "apply_op (Delete account_id) accounts = snd (delete_account account_id accounts)"
| "apply_op (Activate account_id) accounts = snd (activate_account account_id accounts)"

definition run_ops :: "pool_op list \<Rightarrow> account list \<Rightarrow> account list" where
  "run_ops ops accounts = foldl (\<lambda>accs op. apply_op op accs) accounts ops"

text \<open>The number of accounts flagged active.\<close>

definition active_count :: "'a account_scheme list \<Rightarrow> nat" where
  "active_count accounts = length (filter is_active accounts)"

text \<open>The pool invariant: an empty pool, or exactly one account flagged active.\<close>

definition pool_ok :: "'a account_scheme list \<Rightarrow> bool" where
  "pool_ok accounts = (if accounts = [] then True else active_count accounts = 1)"

text \<open>
  \<open>get_all_accounts\<close>: the listing. A non-empty refresh token longer than 14
  characters keeps its first 10 and last 4 characters around three dots, a shorter one
  becomes three stars; a non-empty client secret becomes three stars. Empty fields are
  left as they are.
\<close>

definition get_all_accounts :: "account list \<Rightarrow> account list" where
  "get_all_accounts accounts =
     map (\<lambda>acc.
        let d1 = (if refresh_token acc \<noteq> []
                  then (let token = refresh_token acc
                        in if length token > 14
                           then acc\<lparr>refresh_token :=
                                  take 10 token @ ''...'' @ drop (length token - 4) token\<rparr>
                           else acc\<lparr>refresh_token := ''***''\<rparr>)
                  else acc)
        in if client_secret d1 \<noteq> [] then d1\<lparr>client_secret := ''***''\<rparr> else d1)
       accounts"

section \<open>Token renewal (auth.py)\<close>

text \<open>
  \<open>refresh_token()\<close> of auth.py reads the process-wide configuration, posts the renewal
  request, and stores the tokens of the reply with \<open>update_global_config\<close>. The
  configuration module is not among the source files.

  Modelled from the spec: the configuration record and \<open>update_global_config\<close>. The
  spec's Session holds the access token and its absolute expiry instant; renewal reads
  the refresh credential, the client id and secret and the authorization endpoint from
  it; a rotated refresh credential, if present, replaces the stored one, and the
  lifetime is counted from the time of the update (\<open>now\<close>, in seconds).
\<close>

record global_config =
  cfg_refresh_token :: string
  cfg_client_id :: string
  cfg_client_secret :: string
  token_endpoint :: string
  access_token :: "string option"
  token_expires_at :: "int option"

definition update_global_config ::
  "int \<Rightarrow> string \<Rightarrow> string option \<Rightarrow> int \<Rightarrow> global_config \<Rightarrow> global_config" where
  "update_global_config now new_access_token new_refresh_token expires_in config =
     config\<lparr>access_token := Some new_access_token,
            cfg_refresh_token :=
              (case new_refresh_token of None \<Rightarrow> cfg_refresh_token config | Some r \<Rightarrow> r),
            token_expires_at := Some (now + expires_in)\<rparr>"

text \<open>
  The request of step 2: the JSON payload and the headers, both in the order of the
  source. The invocation id is the string literal of the source.
\<close>

record http_request =
  req_method :: string
  req_url :: string
  req_json :: "(string \<times> string) list"
  req_headers :: "(string \<times> string) list"

definition refresh_request :: "global_config \<Rightarrow> http_request" where
  "refresh_request config =
     \<lparr> req_method = ''POST'',
       req_url = token_endpoint config,
       req_json =
         [(''grantType'', ''refresh_token''),
          (''refreshToken'', cfg_refresh_token config),
          (''clientId'', cfg_client_id config),
          (''clientSecret'', cfg_client_secret config)],
       req_headers =
         [(''Content-Type'', ''application/json''),
          (''User-Agent'', ''aws-sdk-rust/1.3.9 os/macos lang/rust/1.87.0''),
          (''X-Amz-User-Agent'',
           ''aws-sdk-rust/1.3.9 ua/2.1 api/ssooidc/1.88.0 os/macos lang/rust/1.87.0 m/E app/AmazonQ-For-CLI''),
          (''Amz-Sdk-Request'', ''attempt=1; max=3''),
          (''Amz-Sdk-Invocation-Id'', ''362523fb-ad17-428a-b3be-5a812faf0448''),
          (''Accept'', ''*/*''),
          (''Accept-Encoding'', ''gzip, deflate, br'')] \<rparr>"

text \<open>
  What the HTTP client gives back: a transport error (\<open>httpx.RequestError\<close>), or a
  status code and the decoded body. The body is \<open>None\<close> when it is not a JSON object
  (\<open>response.json()\<close> or \<open>response_data.get\<close> raises); the three keys the source reads
  have the types of the backend contract, and a key that is absent or null is \<open>None\<close>.
\<close>

record token_response =
  accessToken :: "string option"
  refreshToken :: "string option"
  expiresIn :: "int option"

datatype http_reply = RequestError string | Reply nat "token_response option"

text \<open>
  \<open>TokenRefreshError\<close> with the branch that raised it: the HTTP status branch, the
  network branch, or the last branch, which also catches the error raised for a reply
  without access token.
\<close>

datatype refresh_failure = HTTPStatusFailure nat | NetworkFailure string | UnknownFailure

datatype token_refresh_error = TokenRefreshError refresh_failure

text \<open>
  \<open>refresh_token()\<close>. \<open>raise_for_status\<close> raises for every status outside 200..299.
  The tests \<open>if not new_access_token\<close>, \<open>if new_refresh_token\<close> and \<open>if expires_in\<close> are
  Python truth tests: an empty string and the number 0 count as absent.
\<close>

definition auth_refresh_token ::
  "int \<Rightarrow> (http_request \<Rightarrow> http_reply) \<Rightarrow> global_config
     \<Rightarrow> token_refresh_error + bool \<times> global_config" where
  "auth_refresh_token now post config =
     (case post (refresh_request config) of
        RequestError msg \<Rightarrow> Inl (TokenRefreshError (NetworkFailure msg))
      | Reply status body \<Rightarrow>
          if \<not> (200 \<le> status \<and> status < 300)
          then Inl (TokenRefreshError (HTTPStatusFailure status))
          else (case body of
                  None \<Rightarrow> Inl (TokenRefreshError UnknownFailure)
                | Some response_data \<Rightarrow>
                    (let new_access_token = accessToken response_data;
                         new_refresh_token = refreshToken response_data;
                         expires_in = expiresIn response_data
                     in case new_access_token of
                          None \<Rightarrow> Inl (TokenRefreshError UnknownFailure)
                        | Some tok \<Rightarrow>
                            if tok = [] then Inl (TokenRefreshError UnknownFailure)
                            else Inr (True,
                              update_global_config now tok
                                (case new_refresh_token of
                                   None \<Rightarrow> None
                                 | Some r \<Rightarrow> if r = [] then None else Some r)
                                (case expires_in of
                                   None \<Rightarrow> 3600
                                 | Some n \<Rightarrow> if n = 0 then 3600 else n)
                                config))))"

section \<open>Renewal of accounts (main.py)\<close>

text \<open>
  The manual refresh endpoint, refresh-all and the background thread switch the active
  flag to the account they renew, call \<open>refresh_token()\<close>, record the outcome with
  \<open>manager.update_refresh_status\<close> and switch the flag back. They work on the list
  \<open>manager.accounts\<close>, assigning to the attributes of its objects.

  main.py reads \<open>account.last_refresh_time\<close> and \<open>account.last_refresh_status\<close> and calls
  \<open>update_refresh_status\<close>; the account_manager.py among the source files has neither
  the two fields nor the method.

  Modelled from the spec: the two bookkeeping fields of an account (the last-refresh
  timestamp, nullable, and the last-refresh outcome, \<open>success\<close>, \<open>failed\<close> or unset)
  and \<open>update_refresh_status\<close>, the spec's \<open>recordRefreshOutcome(id, outcome)\<close>: it sets
  timestamp and outcome of the account with that id and nothing else, and is a no-op
  returning false if the id is absent. Timestamps are seconds.

  \<open>reset_global_config\<close> rebuilds the derived session and leaves the pool alone. The
  outcome of \<open>refresh_token()\<close> depends on the network; it is a parameter, \<open>refresh i\<close>
  for the call made while the account at position \<open>i\<close> is the active one: \<open>None\<close> when the
  call returns, the text of the exception when it raises. \<open>clock i\<close> is the time at which
  the outcome for position \<open>i\<close> is recorded.
\<close>

record tracked_account = account +
  last_refresh_time :: "int option"
  last_refresh_status :: "string option"

definition update_refresh_status ::
  "int \<Rightarrow> string \<Rightarrow> string \<Rightarrow> tracked_account list \<Rightarrow> bool \<times> tracked_account list" where
  "update_refresh_status now account_id status accounts =
     (case index_of account_id accounts of
        None \<Rightarrow> (False, accounts)
      | Some i \<Rightarrow>
          (True, accounts[i := (accounts ! i)\<lparr>last_refresh_time := Some now,
                                            last_refresh_status := Some status\<rparr>]))"

text \<open>
  \<open>not account.refresh_token or not account.client_id or not account.client_secret\<close>
\<close>

definition incomplete :: "'a account_scheme \<Rightarrow> bool" where
  "incomplete account =
     (refresh_token account = [] \<or> client_id account = [] \<or> client_secret account = [])"

text \<open>
  Assignments to \<open>is_active\<close>: of the object at a position, of every object, and of the
  first object with a given id (the loop with \<open>break\<close>).
\<close>

definition set_active :: "nat \<Rightarrow> bool \<Rightarrow> 'a account_scheme list \<Rightarrow> 'a account_scheme list" where
  "set_active i b accounts = accounts[i := (accounts ! i)\<lparr>is_active := b\<rparr>]"

definition deactivate_all :: "'a account_scheme list \<Rightarrow> 'a account_scheme list" where
  "deactivate_all accounts = map (\<lambda>acc. acc\<lparr>is_active := False\<rparr>) accounts"

definition activate_by_id :: "string \<Rightarrow> 'a account_scheme list \<Rightarrow> 'a account_scheme list" where
  "activate_by_id account_id accounts =
     (case index_of account_id accounts of
        None \<Rightarrow> accounts
      | Some j \<Rightarrow> set_active j True accounts)"

subsection \<open>The manual refresh of one account\<close>

text \<open>
  \<open>old_active_id\<close> of \<open>refresh_account_token\<close>: the loop has no \<open>break\<close>, so it ends with
  the id of the last active account.
\<close>

definition last_active_id :: "'a account_scheme list \<Rightarrow> string option" where
  "last_active_id accounts =
     (if filter is_active accounts = [] then None
      else Some (acc_id (last (filter is_active accounts))))"

text \<open>
  The two restore blocks. \<open>if old_active_id:\<close> holds for a non-empty id; only the block
  after a successful renewal has the branch \<open>elif old_active_id is None\<close>.
\<close>

definition restore_after_success ::
  "nat \<Rightarrow> string option \<Rightarrow> 'a account_scheme list \<Rightarrow> 'a account_scheme list" where
  "restore_after_success i old_active_id accounts =
     (let cleared = set_active i False accounts
      in case old_active_id of
           Some old \<Rightarrow> if old \<noteq> [] then activate_by_id old cleared else cleared
         | None \<Rightarrow> set_active i True cleared)"

definition restore_after_failure ::
  "nat \<Rightarrow> string option \<Rightarrow> 'a account_scheme list \<Rightarrow> 'a account_scheme list" where
  "restore_after_failure i old_active_id accounts =
     (let cleared = set_active i False accounts
      in case old_active_id of
           Some old \<Rightarrow> if old \<noteq> [] then activate_by_id old cleared else cleared
         | None \<Rightarrow> cleared)"

text \<open>
  The answers of the endpoint: 404, 400, 200 with the id, name and bookkeeping fields of
  the account, and 500 with the text of the exception.
\<close>

datatype refresh_response =
    NotFound
  | Incomplete
  | Refreshed string "string option" "int option" "string option"
  | RefreshFailed string

definition refresh_account_token ::
  "(nat \<Rightarrow> string option) \<Rightarrow> int \<Rightarrow> string \<Rightarrow> tracked_account list
     \<Rightarrow> refresh_response \<times> tracked_account list" where
  "refresh_account_token refresh now account_id accounts =
     (case index_of account_id accounts of
        None \<Rightarrow> (NotFound, accounts)
      | Some i \<Rightarrow>
          if incomplete (accounts ! i) then (Incomplete, accounts)
          else
            (let old_active_id = last_active_id accounts;
                 switched = set_active i True (deactivate_all accounts)
             in case refresh i of
                  None \<Rightarrow>
                    (let recorded = snd (update_refresh_status now (acc_id (switched ! i))
                                           ''success'' switched);
                         restored = restore_after_success i old_active_id recorded
                     in case get_account_by_id restored account_id of
                          Some refreshed_account \<Rightarrow>
                            (Refreshed (acc_id refreshed_account) (name refreshed_account)
                               (last_refresh_time refreshed_account)
                               (last_refresh_status refreshed_account),
                             restored)
                        | None \<Rightarrow>
                            (RefreshFailed ''AttributeError'',
                             restore_after_failure i old_active_id
                               (snd (update_refresh_status now (acc_id (restored ! i))
                                       ''failed'' restored))))
                | Some e \<Rightarrow>
                    (let recorded = snd (update_refresh_status now (acc_id (switched ! i))
                                           ''failed'' switched)
                     in (RefreshFailed e, restore_after_failure i old_active_id recorded))))"

subsection \<open>Refresh-all\<close>

text \<open>
  One entry of the report: id, name and status of an account; \<open>Skipped\<close> stands for the
  status \<open>skipped\<close> with its fixed error text, \<open>Failed\<close> carries the text of the exception.
\<close>

datatype result_status = Success | Failed string | Skipped

record refresh_report =
  total :: nat
  success_count :: nat
  failed_count :: nat
  report_results :: "(string \<times> string option \<times> result_status) list"

datatype refresh_all_response = NoAccounts | Report refresh_report

text \<open>\<open>old_active_id\<close> of refresh-all: the loop breaks at the first active account.\<close>

definition first_active_id :: "'a account_scheme list \<Rightarrow> string option" where
  "first_active_id accounts = map_option acc_id (find is_active accounts)"

text \<open>
  The body of the loop for the account at position \<open>i\<close>, on the list and the three
  counters of the report. A skipped account counts as failed.
\<close>

definition refresh_all_step ::
  "(nat \<Rightarrow> string option) \<Rightarrow> (nat \<Rightarrow> int)
     \<Rightarrow> tracked_account list \<times> nat \<times> nat \<times> (string \<times> string option \<times> result_status) list
     \<Rightarrow> nat
     \<Rightarrow> tracked_account list \<times> nat \<times> nat \<times> (string \<times> string option \<times> result_status) list" where
  "refresh_all_step refresh clock state i =
     (case state of (accounts, n_success, n_failed, entries) \<Rightarrow>
        (let account = accounts ! i
         in if incomplete account
            then (accounts, n_success, n_failed + 1,
                  entries @ [(acc_id account, name account, Skipped)])
            else
              (let switched = set_active i True (deactivate_all accounts)
               in case refresh i of
                    None \<Rightarrow>
                      (snd (update_refresh_status (clock i) (acc_id (switched ! i))
                              ''success'' switched),
                       n_success + 1, n_failed,
                       entries @ [(acc_id account, name account, Success)])
                  | Some e \<Rightarrow>
                      (snd (update_refresh_status (clock i) (acc_id (switched ! i))
                              ''failed'' switched),
                       n_success, n_failed + 1,
                       entries @ [(acc_id account, name account, Failed e)]))))"

text \<open>
  The restore block of refresh-all: every flag is cleared; then the first account with
  the old id is activated, or, when there was no old id, the first account of the list.
\<close>

definition restore_after_all ::
  "string option \<Rightarrow> 'a account_scheme list \<Rightarrow> 'a account_scheme list" where
  "restore_after_all old_active_id accounts =
     (let cleared = deactivate_all accounts
      in if old_active_id \<noteq> None \<and> old_active_id \<noteq> Some []
         then activate_by_id (the old_active_id) cleared
         else if cleared \<noteq> [] then set_active 0 True cleared
         else cleared)"

definition refresh_all_accounts ::
  "(nat \<Rightarrow> string option) \<Rightarrow> (nat \<Rightarrow> int) \<Rightarrow> tracked_account list
     \<Rightarrow> refresh_all_response \<times> tracked_account list" where
  "refresh_all_accounts refresh clock accounts =
     (if accounts = [] then (NoAccounts, accounts)
      else
        (let old_active_id = first_active_id accounts
         in case foldl (refresh_all_step refresh clock) (accounts, 0, 0, [])
                   [0..<length accounts] of
              (renewed, n_success, n_failed, entries) \<Rightarrow>
                (Report \<lparr>total = length renewed, success_count = n_success,
                         failed_count = n_failed, report_results = entries\<rparr>,
                 restore_after_all old_active_id renewed)))"

subsection \<open>One round of the background thread\<close>

text \<open>
  An account is due when it was never refreshed or its last refresh is more than 1500
  seconds before \<open>now\<close>, the time read at the start of the round.
\<close>

definition due :: "int \<Rightarrow> tracked_account \<Rightarrow> bool" where
  "due now account =
     (case last_refresh_time account of None \<Rightarrow> True | Some t \<Rightarrow> 1500 < now - t)"

text \<open>\<open>old_active\<close> of the thread: the last active object, by its position.\<close>

definition last_active_pos :: "'a account_scheme list \<Rightarrow> nat option" where
  "last_active_pos accounts =
     (if filter (\<lambda>j. is_active (accounts ! j)) [0..<length accounts] = [] then None
      else Some (last (filter (\<lambda>j. is_active (accounts ! j)) [0..<length accounts])))"

definition sweep_step ::
  "(nat \<Rightarrow> string option) \<Rightarrow> (nat \<Rightarrow> int) \<Rightarrow> int \<Rightarrow> tracked_account list \<Rightarrow> nat
     \<Rightarrow> tracked_account list" where
  "sweep_step refresh clock now accounts i =
     (if due now (accounts ! i)
      then
        (let old_active = last_active_pos accounts;
             switched = set_active i True (deactivate_all accounts);
             recorded =
               (case refresh i of
                  None \<Rightarrow> snd (update_refresh_status (clock i) (acc_id (switched ! i))
                                 ''success'' switched)
                | Some e \<Rightarrow> snd (update_refresh_status (clock i) (acc_id (switched ! i))
                                   ''failed'' switched));
             cleared = set_active i False recorded
         in case old_active of
              None \<Rightarrow> cleared
            | Some j \<Rightarrow> set_active j True cleared)
      else accounts)"

definition background_token_refresh ::
  "(nat \<Rightarrow> string option) \<Rightarrow> (nat \<Rightarrow> int) \<Rightarrow> int \<Rightarrow> tracked_account list
     \<Rightarrow> tracked_account list" where
  "background_token_refresh refresh clock now accounts =
     foldl (sweep_step refresh clock now) accounts [0..<length accounts]"

subsection \<open>Views of an account\<close>

text \<open>
  The fields of an account that no renewal assigns to, and its bookkeeping fields.
\<close>

definition identity_of ::
  "'a account_scheme \<Rightarrow> string \<times> string \<times> string \<times> string \<times> string option" where
  "identity_of account =
     (acc_id account, refresh_token account, client_id account, client_secret account,
      name account)"

definition bookkeeping :: "tracked_account \<Rightarrow> int option \<times> string option" where
  "bookkeeping account = (last_refresh_time account, last_refresh_status account)"

text \<open>
  The account at position \<open>k\<close> is the only one flagged active; no account is flagged
  active.
\<close>

definition only_active :: "nat \<Rightarrow> 'a account_scheme list \<Rightarrow> bool" where
  "only_active k accounts =
     (k < length accounts \<and> (\<forall>j < length accounts. is_active (accounts ! j) \<longleftrightarrow> j = k))"

definition none_active :: "'a account_scheme list \<Rightarrow> bool" where
  "none_active accounts = (\<forall>j < length accounts. \<not> is_active (accounts ! j))"

text \<open>The status recorded for an outcome, and the entry of the report for it.\<close>

definition status_of :: "string option \<Rightarrow> string" where
  "status_of outcome = (case outcome of None \<Rightarrow> ''success'' | Some e \<Rightarrow> ''failed'')"

definition entry_of :: "string option \<Rightarrow> result_status" where
  "entry_of outcome = (case outcome of None \<Rightarrow> Success | Some e \<Rightarrow> Failed e)"

section \<open>The OpenAI-flavoured chat endpoint (main.py, chat_completions)\<close>

text \<open>
  \<open>openai_stream\<close> reads the event blocks that \<open>handle_amazonq_stream\<close> yields: each
  is the text of one server-sent event, \<open>event: <type>\<close>, \<open>data: <json>\<close> and an empty
  line. \<open>json.loads\<close> is a parameter of the model (\<open>loads\<close>): it gives \<open>None\<close> where the
  library raises \<open>JSONDecodeError\<close>, and otherwise the decoded object, read at the keys
  the source reads (\<open>type\<close>, \<open>delta\<close>, and \<open>text\<close> under \<open>delta\<close>), a key that is absent
  being \<open>None\<close>. The events are JSON objects with a string under \<open>type\<close> and
  \<open>delta.text\<close>, as the stream handler produces them.
\<close>

datatype json_delta = Delta (delta_text: "string option")

record event_data =
  etype :: "string option"
  edelta :: "json_delta option"

text \<open>\<open>str.startswith\<close>, \<open>str.split('\n')\<close> and \<open>str.strip()\<close>.\<close>

definition startswith :: "string \<Rightarrow> string \<Rightarrow> bool" where
  "startswith s p = (take (length p) s = p)"

fun split_newline :: "string \<Rightarrow> string list" where
  "split_newline [] = [[]]"
| "split_newline (c # cs) =
     (if c = CHR 0x0A then [] # split_newline cs
      else (case split_newline cs of
              [] \<Rightarrow> [[c]]
            | line # lines \<Rightarrow> (c # line) # lines))"

definition isspace :: "char \<Rightarrow> bool" where
  "isspace c = ((of_char c :: nat) \<in> {9, 10, 11, 12, 13, 28, 29, 30, 31, 32, 133, 160})"

definition strip :: "string \<Rightarrow> string" where
  "strip s = rev (dropWhile isspace (rev (dropWhile isspace s)))"

text \<open>
  The loop over the lines of a block: the last line that starts with \<open>event: \<close> and
  the last that starts with \<open>data: \<close>, each without its prefix and stripped.
\<close>

definition scan_lines :: "string list \<Rightarrow> string option \<times> string option" where
  "scan_lines lines =
     foldl (\<lambda>(event_type_line, data_line) line.
              if startswith line ''event: '' then (Some (strip (drop 7 line)), data_line)
              else if startswith line ''data: '' then (event_type_line, Some (strip (drop 6 line)))
              else (event_type_line, data_line))
       (None, None) lines"

text \<open>
  The event one block yields: nothing when there is no data line or it is empty
  (\<open>if not data_line: continue\<close>), nothing when the data line does not parse
  (\<open>except json.JSONDecodeError: continue\<close>).
\<close>

definition parse_block :: "(string \<Rightarrow> event_data option) \<Rightarrow> string \<Rightarrow> event_data option" where
  "parse_block loads event_block =
     (case snd (scan_lines (split_newline event_block)) of
        None \<Rightarrow> None
      | Some data_line \<Rightarrow> if data_line = [] then None else loads data_line)"

text \<open>
  An output block is \<open>_openai_sse_format(obj)\<close>, the line \<open>data: \<close> with the JSON text
  of a chunk object, or the literal block \<open>data: [DONE]\<close>. The model keeps the chunk
  object in place of its JSON text.
\<close>

datatype chunk_delta = RoleDelta string | ContentDelta string | EmptyDelta

record choice =
  index :: nat
  delta :: chunk_delta
  finish_reason :: "string option"

record chunk =
  chunk_id :: string
  object :: string
  created :: int
  model :: string
  choices :: "choice list"

datatype sse = SseData chunk | SseDone

definition role_chunk :: "string \<Rightarrow> int \<Rightarrow> string \<Rightarrow> sse" where
  "role_chunk stream_id created_ts model_name =
     SseData \<lparr>chunk_id = stream_id, object = ''chat.completion.chunk'', created = created_ts,
       model = model_name,
       choices = [\<lparr>index = 0, delta = RoleDelta ''assistant'', finish_reason = None\<rparr>]\<rparr>"

definition content_chunk :: "string \<Rightarrow> int \<Rightarrow> string \<Rightarrow> string \<Rightarrow> sse" where
  "content_chunk stream_id created_ts model_name text_value =
     SseData \<lparr>chunk_id = stream_id, object = ''chat.completion.chunk'', created = created_ts,
       model = model_name,
       choices = [\<lparr>index = 0, delta = ContentDelta text_value, finish_reason = None\<rparr>]\<rparr>"

definition finish_chunk :: "string \<Rightarrow> int \<Rightarrow> string \<Rightarrow> sse" where
  "finish_chunk stream_id created_ts model_name =
     SseData \<lparr>chunk_id = stream_id, object = ''chat.completion.chunk'', created = created_ts,
       model = model_name,
       choices = [\<lparr>index = 0, delta = EmptyDelta, finish_reason = Some ''stop''\<rparr>]\<rparr>"

text \<open>
  \<open>delta.get("text", "")\<close> of \<open>event_data.get("delta", {})\<close>: the empty string when
  either key is absent.
\<close>

definition event_text :: "event_data \<Rightarrow> string" where
  "event_text event =
     (case edelta event of
        None \<Rightarrow> []
      | Some d \<Rightarrow> (case delta_text d of None \<Rightarrow> [] | Some t \<Rightarrow> t))"

text \<open>What the body of the \<open>try\<close> yields for one parsed event, after the role chunk.\<close>

definition event_chunks :: "string \<Rightarrow> int \<Rightarrow> string \<Rightarrow> event_data \<Rightarrow> sse list" where
  "event_chunks stream_id created_ts model_name event =
     (if etype event = Some ''content_block_delta''
      then (if event_text event \<noteq> []
            then [content_chunk stream_id created_ts model_name (event_text event)]
            else [])
      else if etype event = Some ''message_stop''
      then [finish_chunk stream_id created_ts model_name]
      else [])"

text \<open>
  The generator \<open>openai_stream\<close>, as the list of blocks it yields: the loop with its
  flag \<open>role_sent\<close>, and the \<open>[DONE]\<close> block after the loop.
\<close>

fun openai_stream_loop ::
  "(string \<Rightarrow> event_data option) \<Rightarrow> string \<Rightarrow> int \<Rightarrow> string \<Rightarrow> bool \<Rightarrow> string list
     \<Rightarrow> sse list" where
  "openai_stream_loop loads stream_id created_ts model_name role_sent [] = [SseDone]"
| "openai_stream_loop loads stream_id created_ts model_name role_sent (event_block # rest) =
     (case parse_block loads event_block of
        None \<Rightarrow> openai_stream_loop loads stream_id created_ts model_name role_sent rest
      | Some event \<Rightarrow>
          (if role_sent then [] else [role_chunk stream_id created_ts model_name])
          @ event_chunks stream_id created_ts model_name event
          @ openai_stream_loop loads stream_id created_ts model_name True rest)"

definition openai_stream ::
  "(string \<Rightarrow> event_data option) \<Rightarrow> string \<Rightarrow> int \<Rightarrow> string \<Rightarrow> string list \<Rightarrow> sse list" where
  "openai_stream loads stream_id created_ts model_name event_blocks =
     openai_stream_loop loads stream_id created_ts model_name False event_blocks"

text \<open>The events a list of blocks decodes to, in arrival order.\<close>

definition parsed_events ::
  "(string \<Rightarrow> event_data option) \<Rightarrow> string list \<Rightarrow> event_data list" where
  "parsed_events loads event_blocks = List.map_filter (parse_block loads) event_blocks"

text \<open>The text of a content chunk, for reading the content chunks off an output.\<close>

fun content_of :: "sse \<Rightarrow> string option" where
  "content_of SseDone = None"
| "content_of (SseData c) =
     (case choices c of
        [ch] \<Rightarrow> (case delta ch of ContentDelta t \<Rightarrow> Some t | _ \<Rightarrow> None)
      | _ \<Rightarrow> None)"

text \<open>
  The branch \<open>if not do_stream\<close>: a status other than 200 raises \<open>HTTPException\<close> with
  that status; otherwise the loop over the body's chunks runs with \<open>pass\<close> as its body,
  and the answer is built from \<open>full_text\<close>. \<open>time.time()\<close> and \<open>uuid.uuid4()\<close> are inputs.
\<close>

datatype http_exception = HTTPException nat string

record chat_message =
  role :: string
  msg_content :: string

record completion_choice =
  c_index :: nat
  c_message :: chat_message
  c_finish_reason :: string

record chat_completion =
  completion_id :: string
  completion_object :: string
  completion_created :: int
  completion_model :: string
  completion_choices :: "completion_choice list"
  usage :: "nat \<times> nat \<times> nat"

definition openai_non_streaming_response ::
  "int \<Rightarrow> string \<Rightarrow> string \<Rightarrow> string \<Rightarrow> chat_completion" where
  "openai_non_streaming_response created_ts uuid text_value model_name =
     \<lparr>completion_id = ''chatcmpl-'' @ uuid, completion_object = ''chat.completion'',
      completion_created = created_ts, completion_model = model_name,
      completion_choices =
        [\<lparr>c_index = 0, c_message = \<lparr>role = ''assistant'', msg_content = text_value\<rparr>,
          c_finish_reason = ''stop''\<rparr>],
      usage = (0, 0, 0)\<rparr>"

definition chat_completions_non_streaming ::
  "int \<Rightarrow> string \<Rightarrow> string \<Rightarrow> nat \<Rightarrow> string \<Rightarrow> string list
     \<Rightarrow> http_exception + chat_completion" where
  "chat_completions_non_streaming created_ts uuid model_name status_code error_text body_chunks =
     (if status_code \<noteq> 200 then Inl (HTTPException status_code error_text)
      else (let full_text = foldl (\<lambda>full_text chunk. full_text) [] body_chunks
            in Inr (openai_non_streaming_response created_ts uuid full_text model_name)))"

section \<open>Tool results of the current message (main.py, create_message)\<close>

text \<open>
  A tool-result record is a dictionary of the translated request. Its keys
  \<open>toolUseId\<close> and \<open>content\<close> may be absent (\<open>None\<close>): the source reads the first with
  \<open>get\<close>, the content of a record that is merged away with \<open>get("content", [])\<close>, and the
  content of the record that is kept with \<open>existing["content"]\<close>, which raises
  \<open>KeyError\<close> when the key is absent. The other keys of the dictionary are the field
  \<open>other\<close>. The entries of a content list are of any type.
\<close>

record ('c, 'o) tool_result =
  toolUseId :: "string option"
  content :: "'c list option"
  other :: 'o

datatype py_error = KeyError string

text \<open>\<open>result.get("content", [])\<close>\<close>

definition content_or_empty :: "('c, 'o) tool_result \<Rightarrow> 'c list" where
  "content_or_empty result = (case content result of None \<Rightarrow> [] | Some c \<Rightarrow> c)"

text \<open>
  The inner loop: the first record already kept with this id has the new entries
  appended to its content list, and the loop breaks.
\<close>

fun extend_existing ::
  "string option \<Rightarrow> 'c list \<Rightarrow> ('c, 'o) tool_result list
     \<Rightarrow> py_error + ('c, 'o) tool_result list" where
  "extend_existing tool_use_id extra [] = Inr []"
| "extend_existing tool_use_id extra (existing # rest) =
     (if toolUseId existing = tool_use_id
      then (case content existing of
              None \<Rightarrow> Inl (KeyError ''content'')
            | Some c \<Rightarrow> Inr (existing\<lparr>content := Some (c @ extra)\<rparr> # rest))
      else (case extend_existing tool_use_id extra rest of
              Inl e \<Rightarrow> Inl e
            | Inr rest' \<Rightarrow> Inr (existing # rest')))"

text \<open>
  The outer loop over \<open>tool_results\<close>, with \<open>merged_tool_results\<close> and
  \<open>seen_tool_use_ids\<close> as its state.
\<close>

fun merge_loop ::
  "('c, 'o) tool_result list \<Rightarrow> ('c, 'o) tool_result list \<Rightarrow> string option set
     \<Rightarrow> py_error + ('c, 'o) tool_result list" where
  "merge_loop [] merged_tool_results seen_tool_use_ids = Inr merged_tool_results"
| "merge_loop (result # results) merged_tool_results seen_tool_use_ids =
     (let tool_use_id = toolUseId result
      in if tool_use_id \<in> seen_tool_use_ids
         then (case extend_existing tool_use_id (content_or_empty result) merged_tool_results of
                 Inl e \<Rightarrow> Inl e
               | Inr merged' \<Rightarrow> merge_loop results merged' seen_tool_use_ids)
         else merge_loop results (merged_tool_results @ [result])
                (insert tool_use_id seen_tool_use_ids))"

text \<open>
  The value of \<open>toolResults\<close> after the block: an empty list is left alone
  (\<open>if tool_results:\<close>), any other list is replaced by the merged one.
\<close>

definition merge_tool_results ::
  "('c, 'o) tool_result list \<Rightarrow> py_error + ('c, 'o) tool_result list" where
  "merge_tool_results tool_results =
     (if tool_results = [] then Inr tool_results else merge_loop tool_results [] {})"

text \<open>
  The grouping in the words of the specification, for comparison with the loop: the
  first record of an id is kept, the content entries of the later records with that id
  are appended to it in their order, and the records of the other ids follow, grouped
  the same way.
\<close>

fun group_by_id :: "('c, 'o) tool_result list \<Rightarrow> ('c, 'o) tool_result list" where
  "group_by_id [] = []"
| "group_by_id (first # later) =
     first\<lparr>content := Some (content_or_empty first
        @ concat (map content_or_empty (filter (\<lambda>r. toolUseId r = toolUseId first) later)))\<rparr>
     # group_by_id (filter (\<lambda>r. toolUseId r \<noteq> toolUseId first) later)"

section \<open>Properties of the account pool\<close>

lemma index_of_bound: "index_of aid accs = Some i \<Longrightarrow> i < length accs"
  by (induction accs arbitrary: i) (auto split: if_splits)

lemma active_count_append: "active_count (xs @ ys) = active_count xs + active_count ys"
  by (simp add: active_count_def)

lemma active_count_Cons: "active_count (x # xs) = (if is_active x then 1 else 0) + active_count xs"
  by (simp add: active_count_def)

lemma active_count_Nil: "active_count [] = 0"
  by (simp add: active_count_def)

lemma active_count_remove1:
  "a \<in> set xs \<Longrightarrow> active_count xs = (if is_active a then 1 else 0) + active_count (remove1 a xs)"
  by (induction xs) (auto simp: active_count_Cons active_count_Nil)

lemma active_count_cleared: "active_count (map (\<lambda>acc. acc\<lparr>is_active := False\<rparr>) xs) = 0"
  by (induction xs) (auto simp: active_count_Cons active_count_Nil)

lemma active_count_update:
  "i < length xs \<Longrightarrow>
   active_count (xs[i := (xs ! i)\<lparr>is_active := b\<rparr>]) + (if is_active (xs ! i) then 1 else 0)
     = active_count xs + (if b then 1 else 0)"
proof (induction xs arbitrary: i)
  case Nil then show ?case by simp
next
  case (Cons x xs)
  then show ?case by (cases i) (auto simp: active_count_Cons)
qed

lemma index_of_nth: "index_of aid accs = Some i \<Longrightarrow> acc_id (accs ! i) = aid"
  by (induction accs arbitrary: i) (auto split: if_splits)

lemma index_of_first: "index_of aid accs = Some i \<Longrightarrow> j < i \<Longrightarrow> acc_id (accs ! j) \<noteq> aid"
proof (induction accs arbitrary: i j)
  case Nil then show ?case by simp
next
  case (Cons a accs)
  then show ?case by (cases j) (auto split: if_splits)
qed

lemma index_of_None: "index_of aid accs = None \<longleftrightarrow> aid \<notin> acc_id ` set accs"
  by (induction accs) auto

lemma get_account_by_id_mem: "get_account_by_id accs aid = Some a \<Longrightarrow> a \<in> set accs"
  by (auto simp: get_account_by_id_def dest: index_of_bound)

lemma pool_ok_add: "pool_ok accs \<Longrightarrow> pool_ok (snd (add_account i n r c s p m accs))"
  by (auto simp: pool_ok_def add_account_def Let_def active_count_append active_count_Cons active_count_Nil split: if_splits)

lemma pool_ok_delete: "pool_ok accs \<Longrightarrow> pool_ok (snd (delete_account aid accs))"
proof (cases "get_account_by_id accs aid")
  case None
  assume "pool_ok accs"
  with None show ?thesis by (simp add: delete_account_def)
next
  case (Some a)
  assume ok: "pool_ok accs"
  from Some have mem: "a \<in> set accs" by (rule get_account_by_id_mem)
  then have ne: "accs \<noteq> []" by auto
  with ok have one: "active_count accs = 1" by (simp add: pool_ok_def)
  let ?rest = "remove1 a accs"
  from active_count_remove1[OF mem] one
  have cnt: "(if is_active a then 1 else 0) + active_count ?rest = 1" by simp
  show ?thesis
  proof (cases "is_active a \<and> ?rest \<noteq> []")
    case True
    then have z: "active_count ?rest = 0" using cnt by simp
    from True have len: "0 < length ?rest" by simp
    have "\<not> is_active (?rest ! 0)"
      using z len by (cases ?rest) (auto simp: active_count_Cons split: if_splits)
    with active_count_update[OF len, of True] z
    have "active_count (?rest[0 := (?rest ! 0)\<lparr>is_active := True\<rparr>]) = 1" by simp
    with True Some show ?thesis by (simp add: delete_account_def pool_ok_def Let_def)
  next
    case False
    with cnt have "?rest = [] \<or> active_count ?rest = 1" by (auto split: if_splits)
    with False Some show ?thesis by (auto simp: delete_account_def pool_ok_def Let_def)
  qed
qed

lemma pool_ok_activate: "pool_ok accs \<Longrightarrow> pool_ok (snd (activate_account aid accs))"
proof (cases "index_of aid accs")
  case None
  assume "pool_ok accs"
  with None show ?thesis by (simp add: activate_account_def)
next
  case (Some i)
  let ?c = "map (\<lambda>acc. acc\<lparr>is_active := False\<rparr>) accs"
  from Some have len: "i < length ?c" by (simp add: index_of_bound)
  have "\<not> is_active (?c ! i)" using len by simp
  with active_count_update[OF len, of True] active_count_cleared[of accs]
  have "active_count (?c[i := (?c ! i)\<lparr>is_active := True\<rparr>]) = 1" by simp
  with Some show ?thesis by (simp add: activate_account_def pool_ok_def Let_def)
qed

lemma pool_ok_apply_op: "pool_ok accs \<Longrightarrow> pool_ok (apply_op op accs)"
  by (cases op) (simp_all add: pool_ok_add pool_ok_delete pool_ok_activate)

lemma pool_ok_run_ops: "pool_ok accs \<Longrightarrow> pool_ok (run_ops ops accs)"
  unfolding run_ops_def by (induction ops arbitrary: accs) (simp_all add: pool_ok_apply_op)

lemma active_count_zero: "active_count xs = 0 \<longleftrightarrow> (\<forall>x \<in> set xs. \<not> is_active x)"
  by (induction xs) (auto simp: active_count_Cons active_count_Nil)

lemma get_account_by_id_nth:
  "get_account_by_id accs aid = Some a \<Longrightarrow> \<exists>i. index_of aid accs = Some i \<and> a = accs ! i"
  by (auto simp: get_account_by_id_def)

lemma activate_first_ids:
  "map acc_id (xs[0 := (xs ! 0)\<lparr>is_active := True\<rparr>]) = map acc_id xs"
  by (cases xs) simp_all

lemma activate_first_flags:
  "\<forall>x \<in> set xs. \<not> is_active x \<Longrightarrow> j < length xs \<Longrightarrow>
   is_active (xs[0 := (xs ! 0)\<lparr>is_active := True\<rparr>] ! j) \<longleftrightarrow> j = 0"
  by (cases xs; cases j) auto

lemma delete_active_reactivates_first:
  assumes ok: "pool_ok accounts"
    and found: "get_account_by_id accounts account_id = Some acc"
    and act: "is_active acc"
    and ne: "remove1 acc accounts \<noteq> []"
  shows "fst (delete_account account_id accounts)"
    and "map acc_id (snd (delete_account account_id accounts)) = map acc_id (remove1 acc accounts)"
    and "\<forall>j < length (snd (delete_account account_id accounts)).
           is_active (snd (delete_account account_id accounts) ! j) \<longleftrightarrow> j = 0"
proof -
  let ?rest = "remove1 acc accounts"
  have res: "delete_account account_id accounts = (True, ?rest[0 := (?rest ! 0)\<lparr>is_active := True\<rparr>])"
    using found act ne by (simp add: delete_account_def Let_def)
  from found have mem: "acc \<in> set accounts" by (rule get_account_by_id_mem)
  with ok have "active_count accounts = 1" by (cases accounts) (auto simp: pool_ok_def)
  with active_count_remove1[OF mem] act have "active_count ?rest = 0" by simp
  then have off: "\<forall>x \<in> set ?rest. \<not> is_active x" by (simp add: active_count_zero)
  show "fst (delete_account account_id accounts)" by (simp add: res)
  show "map acc_id (snd (delete_account account_id accounts)) = map acc_id ?rest"
    by (simp add: res activate_first_ids)
  show "\<forall>j < length (snd (delete_account account_id accounts)).
           is_active (snd (delete_account account_id accounts) ! j) \<longleftrightarrow> j = 0"
    using off by (simp add: res activate_first_flags)
qed

lemma activate_only_target:
  assumes "index_of account_id accounts = Some i"
  shows "fst (activate_account account_id accounts)"
    and "map acc_id (snd (activate_account account_id accounts)) = map acc_id accounts"
    and "\<forall>j < length accounts.
           is_active (snd (activate_account account_id accounts) ! j) \<longleftrightarrow> j = i"
proof -
  have len: "i < length accounts" using assms by (rule index_of_bound)
  let ?c = "map (\<lambda>acc. acc\<lparr>is_active := False\<rparr>) accounts"
  have res: "activate_account account_id accounts = (True, ?c[i := (?c ! i)\<lparr>is_active := True\<rparr>])"
    using assms by (simp add: activate_account_def Let_def)
  show "fst (activate_account account_id accounts)" by (simp add: res)
  show "map acc_id (snd (activate_account account_id accounts)) = map acc_id accounts"
    using len by (simp add: res map_update o_def) (simp add: list_update_same_conv)
  show "\<forall>j < length accounts.
           is_active (snd (activate_account account_id accounts) ! j) \<longleftrightarrow> j = i"
    using len by (simp add: res nth_list_update)
qed

subsection \<open>C1: one active account\<close>

text \<open>
  C1, as stated, quantifies over every pool. A pool with no account flagged active can be
  loaded from the account file (\<open>is_active\<close> defaults to \<open>False\<close>, and
  \<open>get_active_account\<close> has a branch for it); \<open>add_account\<close> activates the new
  account only when the pool is empty, so adding to such a pool leaves a non-empty pool
  with no active account.
\<close>

theorem C1_counterexample:
  "run_ops [Add ''b'' ''t1'' ''rb'' ''cb'' ''sb'' None None]
     [\<lparr>acc_id = ''a'', refresh_token = ''ra'', client_id = ''ca'', client_secret = ''sa'',
       profile_arn = None, name = None, is_active = False, created_at = ''t0''\<rparr>] \<noteq> []
   \<and> active_count
       (run_ops [Add ''b'' ''t1'' ''rb'' ''cb'' ''sb'' None None]
         [\<lparr>acc_id = ''a'', refresh_token = ''ra'', client_id = ''ca'', client_secret = ''sa'',
           profile_arn = None, name = None, is_active = False, created_at = ''t0''\<rparr>]) = 0"
  by (simp add: run_ops_def add_account_def active_count_def Let_def)

text \<open>
  C1 (amended): for every pool that is empty or has exactly one account flagged active,
  and every finite sequence of add, activate and delete operations applied to it, the
  resulting pool is again empty or has exactly one account with \<open>is_active\<close> set.
  In such a pool, deleting the active account while others remain keeps the survivors in
  insertion order and leaves the first of them as the only active account; and in any
  pool, activating an id that is present leaves the account found for that id as the
  only active one.
\<close>

theorem C1_one_active_account:
  assumes "pool_ok accounts"
  shows "pool_ok (run_ops ops accounts)
    \<and> (run_ops ops accounts \<noteq> [] \<longrightarrow> active_count (run_ops ops accounts) = 1)
    \<and> (\<forall>account_id acc.
          get_account_by_id accounts account_id = Some acc \<and> is_active acc
            \<and> remove1 acc accounts \<noteq> [] \<longrightarrow>
          fst (delete_account account_id accounts)
          \<and> map acc_id (snd (delete_account account_id accounts))
              = map acc_id (remove1 acc accounts)
          \<and> (\<forall>j < length (snd (delete_account account_id accounts)).
                is_active (snd (delete_account account_id accounts) ! j) \<longleftrightarrow> j = 0))
    \<and> (\<forall>account_id i.
          index_of account_id accounts = Some i \<longrightarrow>
          fst (activate_account account_id accounts)
          \<and> map acc_id (snd (activate_account account_id accounts)) = map acc_id accounts
          \<and> (\<forall>j < length accounts.
                is_active (snd (activate_account account_id accounts) ! j) \<longleftrightarrow> j = i))"
proof -
  have ok: "pool_ok (run_ops ops accounts)"
    using assms by (rule pool_ok_run_ops)
  have one: "run_ops ops accounts \<noteq> [] \<longrightarrow> active_count (run_ops ops accounts) = 1"
    using ok by (simp add: pool_ok_def)
  have del: "fst (delete_account account_id accounts)
      \<and> map acc_id (snd (delete_account account_id accounts))
          = map acc_id (remove1 acc accounts)
      \<and> (\<forall>j < length (snd (delete_account account_id accounts)).
            is_active (snd (delete_account account_id accounts) ! j) \<longleftrightarrow> j = 0)"
    if "get_account_by_id accounts account_id = Some acc \<and> is_active acc
      \<and> remove1 acc accounts \<noteq> []" for account_id acc
  proof -
    from that have f: "get_account_by_id accounts account_id = Some acc"
      and a: "is_active acc" and n: "remove1 acc accounts \<noteq> []" by simp_all
    show ?thesis
      by (intro conjI delete_active_reactivates_first[OF assms f a n])
  qed
  have act: "fst (activate_account account_id accounts)
      \<and> map acc_id (snd (activate_account account_id accounts)) = map acc_id accounts
      \<and> (\<forall>j < length accounts.
            is_active (snd (activate_account account_id accounts) ! j) \<longleftrightarrow> j = i)"
    if "index_of account_id accounts = Some i" for account_id i
    by (intro conjI activate_only_target[OF that])
  from ok one del act show ?thesis by blast
qed

theorem C1_one_active_account_witness:
  "pool_ok
     [\<lparr>acc_id = ''a'', refresh_token = ''ra'', client_id = ''ca'', client_secret = ''sa'',
       profile_arn = None, name = None, is_active = True, created_at = ''t0''\<rparr>,
      \<lparr>acc_id = ''b'', refresh_token = ''rb'', client_id = ''cb'', client_secret = ''sb'',
       profile_arn = None, name = None, is_active = False, created_at = ''t1''\<rparr>]
   \<and> map (\<lambda>acc. (acc_id acc, is_active acc))
       (run_ops [Add ''c'' ''t2'' ''rc'' ''cc'' ''sc'' None None, Delete ''a'', Activate ''c'']
         [\<lparr>acc_id = ''a'', refresh_token = ''ra'', client_id = ''ca'', client_secret = ''sa'',
           profile_arn = None, name = None, is_active = True, created_at = ''t0''\<rparr>,
          \<lparr>acc_id = ''b'', refresh_token = ''rb'', client_id = ''cb'', client_secret = ''sb'',
           profile_arn = None, name = None, is_active = False, created_at = ''t1''\<rparr>])
     = [(''b'', False), (''c'', True)]
   \<and> active_count
       (run_ops [Add ''c'' ''t2'' ''rc'' ''cc'' ''sc'' None None, Delete ''a'', Activate ''c'']
         [\<lparr>acc_id = ''a'', refresh_token = ''ra'', client_id = ''ca'', client_secret = ''sa'',
           profile_arn = None, name = None, is_active = True, created_at = ''t0''\<rparr>,
          \<lparr>acc_id = ''b'', refresh_token = ''rb'', client_id = ''cb'', client_secret = ''sb'',
           profile_arn = None, name = None, is_active = False, created_at = ''t1''\<rparr>]) = 1"
proof -
  let ?pool =
    "[\<lparr>acc_id = ''a'', refresh_token = ''ra'', client_id = ''ca'', client_secret = ''sa'',
       profile_arn = None, name = None, is_active = True, created_at = ''t0''\<rparr>,
      \<lparr>acc_id = ''b'', refresh_token = ''rb'', client_id = ''cb'', client_secret = ''sb'',
       profile_arn = None, name = None, is_active = False, created_at = ''t1''\<rparr>]"
  let ?ops = "[Add ''c'' ''t2'' ''rc'' ''cc'' ''sc'' None None, Delete ''a'', Activate ''c'']"
  have ok: "pool_ok ?pool"
    by (simp add: pool_ok_def active_count_def)
  have run: "map (\<lambda>acc. (acc_id acc, is_active acc)) (run_ops ?ops ?pool)
      = [(''b'', False), (''c'', True)]"
    by (simp add: run_ops_def add_account_def delete_account_def activate_account_def
        get_account_by_id_def Let_def)
  then have ne: "run_ops ?ops ?pool \<noteq> []" by auto
  from C1_one_active_account[OF ok, of ?ops] ne
  have "active_count (run_ops ?ops ?pool) = 1" by blast
  with ok run show ?thesis by blast
qed

section \<open>Properties of the OpenAI-flavoured stream\<close>

lemma openai_stream_loop_eq:
  "openai_stream_loop loads sid ts m role_sent blocks =
     (if role_sent \<or> parsed_events loads blocks = [] then [] else [role_chunk sid ts m])
     @ concat (map (event_chunks sid ts m) (parsed_events loads blocks))
     @ [SseDone]"
proof (induction blocks arbitrary: role_sent)
  case Nil
  then show ?case by (simp add: parsed_events_def List.map_filter_simps)
next
  case (Cons b bs)
  then show ?case
    by (cases "parse_block loads b") (simp_all add: parsed_events_def List.map_filter_simps)
qed

lemma openai_stream_eq:
  "openai_stream loads sid ts m blocks =
     (if parsed_events loads blocks = [] then [] else [role_chunk sid ts m])
     @ concat (map (event_chunks sid ts m) (parsed_events loads blocks))
     @ [SseDone]"
  by (simp add: openai_stream_def openai_stream_loop_eq)

lemma count_list_append: "count_list (xs @ ys) x = count_list xs x + count_list ys x"
  by (induction xs) auto

lemma event_chunks_no_role:
  "count_list (concat (map (event_chunks sid ts m) evs)) (role_chunk sid ts m) = 0"
  by (induction evs)
     (auto simp: count_list_append event_chunks_def role_chunk_def content_chunk_def
        finish_chunk_def)

lemma event_chunks_no_done:
  "count_list (concat (map (event_chunks sid ts m) evs)) SseDone = 0"
  by (induction evs)
     (auto simp: count_list_append event_chunks_def content_chunk_def finish_chunk_def)

lemma event_chunks_finish:
  "count_list (concat (map (event_chunks sid ts m) evs)) (finish_chunk sid ts m)
     = length (filter (\<lambda>e. etype e = Some ''message_stop'') evs)"
  by (induction evs)
     (auto simp: count_list_append event_chunks_def content_chunk_def finish_chunk_def)

lemma map_filter_append: "List.map_filter f (xs @ ys) = List.map_filter f xs @ List.map_filter f ys"
  by (simp add: List.map_filter_def)

lemma event_chunks_content:
  "List.map_filter content_of (concat (map (event_chunks sid ts m) evs))
     = map event_text
         (filter (\<lambda>e. etype e = Some ''content_block_delta'' \<and> event_text e \<noteq> []) evs)"
  by (induction evs)
     (auto simp: map_filter_append List.map_filter_simps event_chunks_def content_chunk_def
        finish_chunk_def)

lemma chunk_distinct:
  "role_chunk a b c \<noteq> SseDone" "SseDone \<noteq> role_chunk a b c"
  "finish_chunk a b c \<noteq> SseDone" "SseDone \<noteq> finish_chunk a b c"
  "role_chunk a b c \<noteq> finish_chunk a b c" "finish_chunk a b c \<noteq> role_chunk a b c"
  by (simp_all add: role_chunk_def finish_chunk_def)

lemma content_of_other:
  "content_of (role_chunk a b c) = None" "content_of (finish_chunk a b c) = None"
  by (simp_all add: role_chunk_def finish_chunk_def)

subsection \<open>C2: the output of the stream encoder\<close>

text \<open>
  C2, as stated, promises exactly one role chunk for every sequence of events. The role
  chunk is yielded inside the loop, when the first event is parsed; for the empty
  sequence the loop body never runs and the output is the \<open>[DONE]\<close> block alone.
\<close>

theorem C2_counterexample:
  "openai_stream Map.empty ''chatcmpl-1'' 0 ''claude-sonnet-4.5'' [] = [SseDone]
   \<and> count_list (openai_stream Map.empty ''chatcmpl-1'' 0 ''claude-sonnet-4.5'' [])
       (role_chunk ''chatcmpl-1'' 0 ''claude-sonnet-4.5'') = 0"
  by (simp add: openai_stream_def chunk_distinct)

text \<open>
  C2 (amended): for every finite sequence of event blocks, the output is the role chunk
  (if at least one event was parsed, none otherwise), then the chunks of the parsed
  events in arrival order, then one \<open>[DONE]\<close> block. So the role chunk occurs once if an
  event was parsed and is the first block of the output; the content chunks are, in
  order, the non-empty texts of the \<open>content_block_delta\<close> events; there is one finish
  chunk with \<open>finish_reason = stop\<close> per \<open>message_stop\<close> event; and the output ends
  with the only \<open>[DONE]\<close> block, whether or not a \<open>message_stop\<close> was seen. Blocks that
  decode to \<open>content_block_delta("hi")\<close>, \<open>content_block_delta("!")\<close>, \<open>message_stop\<close>
  yield the role chunk, content \<open>hi\<close>, content \<open>!\<close>, the finish chunk and \<open>[DONE]\<close>.
\<close>

theorem C2_openai_stream_output:
  "openai_stream loads sid ts m blocks =
      (if parsed_events loads blocks = [] then [] else [role_chunk sid ts m])
      @ concat (map (event_chunks sid ts m) (parsed_events loads blocks))
      @ [SseDone]
   \<and> count_list (openai_stream loads sid ts m blocks) (role_chunk sid ts m)
       = (if parsed_events loads blocks = [] then 0 else 1)
   \<and> List.map_filter content_of (openai_stream loads sid ts m blocks)
       = map event_text
           (filter (\<lambda>e. etype e = Some ''content_block_delta'' \<and> event_text e \<noteq> [])
              (parsed_events loads blocks))
   \<and> count_list (openai_stream loads sid ts m blocks) (finish_chunk sid ts m)
       = length (filter (\<lambda>e. etype e = Some ''message_stop'') (parsed_events loads blocks))
   \<and> last (openai_stream loads sid ts m blocks) = SseDone
   \<and> count_list (openai_stream loads sid ts m blocks) SseDone = 1
   \<and> (parsed_events loads blocks =
         [\<lparr>etype = Some ''content_block_delta'', edelta = Some (Delta (Some ''hi''))\<rparr>,
          \<lparr>etype = Some ''content_block_delta'', edelta = Some (Delta (Some ''!''))\<rparr>,
          \<lparr>etype = Some ''message_stop'', edelta = None\<rparr>] \<longrightarrow>
       openai_stream loads sid ts m blocks =
         [role_chunk sid ts m, content_chunk sid ts m ''hi'', content_chunk sid ts m ''!'',
          finish_chunk sid ts m, SseDone])"
proof (intro conjI impI)
  show "openai_stream loads sid ts m blocks =
      (if parsed_events loads blocks = [] then [] else [role_chunk sid ts m])
      @ concat (map (event_chunks sid ts m) (parsed_events loads blocks))
      @ [SseDone]"
    by (rule openai_stream_eq)
  show "count_list (openai_stream loads sid ts m blocks) (role_chunk sid ts m)
       = (if parsed_events loads blocks = [] then 0 else 1)"
    by (simp add: openai_stream_eq count_list_append event_chunks_no_role chunk_distinct)
  show "List.map_filter content_of (openai_stream loads sid ts m blocks)
       = map event_text
           (filter (\<lambda>e. etype e = Some ''content_block_delta'' \<and> event_text e \<noteq> [])
              (parsed_events loads blocks))"
    by (simp add: openai_stream_eq map_filter_append event_chunks_content
        List.map_filter_simps content_of_other)
  show "count_list (openai_stream loads sid ts m blocks) (finish_chunk sid ts m)
       = length (filter (\<lambda>e. etype e = Some ''message_stop'') (parsed_events loads blocks))"
    by (simp add: openai_stream_eq count_list_append event_chunks_finish chunk_distinct)
  show "last (openai_stream loads sid ts m blocks) = SseDone"
    by (simp add: openai_stream_eq)
  show "count_list (openai_stream loads sid ts m blocks) SseDone = 1"
    by (simp add: openai_stream_eq count_list_append event_chunks_no_done chunk_distinct)
next
  assume "parsed_events loads blocks =
         [\<lparr>etype = Some ''content_block_delta'', edelta = Some (Delta (Some ''hi''))\<rparr>,
          \<lparr>etype = Some ''content_block_delta'', edelta = Some (Delta (Some ''!''))\<rparr>,
          \<lparr>etype = Some ''message_stop'', edelta = None\<rparr>]"
  then show "openai_stream loads sid ts m blocks =
         [role_chunk sid ts m, content_chunk sid ts m ''hi'', content_chunk sid ts m ''!'',
          finish_chunk sid ts m, SseDone]"
    by (simp add: openai_stream_eq event_chunks_def event_text_def)
qed

theorem C2_openai_stream_output_witness:
  \<open>openai_stream
     [''{"type": "content_block_delta", "delta": {"text": "hi"}}'' \<mapsto>
        \<lparr>etype = Some ''content_block_delta'', edelta = Some (Delta (Some ''hi''))\<rparr>,
      ''{"type": "content_block_delta", "delta": {"text": "!"}}'' \<mapsto>
        \<lparr>etype = Some ''content_block_delta'', edelta = Some (Delta (Some ''!''))\<rparr>,
      ''{"type": "message_stop"}'' \<mapsto> \<lparr>etype = Some ''message_stop'', edelta = None\<rparr>]
     ''chatcmpl-1'' 0 ''claude-sonnet-4.5''
     [''event: content_block_delta\<newline>data: {"type": "content_block_delta", "delta": {"text": "hi"}}\<newline>\<newline>'',
      ''event: content_block_delta\<newline>data: {"type": "content_block_delta", "delta": {"text": "!"}}\<newline>\<newline>'',
      ''event: message_stop\<newline>data: {"type": "message_stop"}\<newline>\<newline>'']
   = [role_chunk ''chatcmpl-1'' 0 ''claude-sonnet-4.5'',
      content_chunk ''chatcmpl-1'' 0 ''claude-sonnet-4.5'' ''hi'',
      content_chunk ''chatcmpl-1'' 0 ''claude-sonnet-4.5'' ''!'',
      finish_chunk ''chatcmpl-1'' 0 ''claude-sonnet-4.5'', SseDone]\<close>
proof -
  let ?loads = \<open>[''{"type": "content_block_delta", "delta": {"text": "hi"}}'' \<mapsto>
        \<lparr>etype = Some ''content_block_delta'', edelta = Some (Delta (Some ''hi''))\<rparr>,
      ''{"type": "content_block_delta", "delta": {"text": "!"}}'' \<mapsto>
        \<lparr>etype = Some ''content_block_delta'', edelta = Some (Delta (Some ''!''))\<rparr>,
      ''{"type": "message_stop"}'' \<mapsto> \<lparr>etype = Some ''message_stop'', edelta = None\<rparr>]\<close>
  let ?blocks = \<open>[''event: content_block_delta\<newline>data: {"type": "content_block_delta", "delta": {"text": "hi"}}\<newline>\<newline>'',
      ''event: content_block_delta\<newline>data: {"type": "content_block_delta", "delta": {"text": "!"}}\<newline>\<newline>'',
      ''event: message_stop\<newline>data: {"type": "message_stop"}\<newline>\<newline>'']\<close>
  have "parsed_events ?loads ?blocks =
         [\<lparr>etype = Some ''content_block_delta'', edelta = Some (Delta (Some ''hi''))\<rparr>,
          \<lparr>etype = Some ''content_block_delta'', edelta = Some (Delta (Some ''!''))\<rparr>,
          \<lparr>etype = Some ''message_stop'', edelta = None\<rparr>]"
    by (simp add: parsed_events_def List.map_filter_simps parse_block_def scan_lines_def
        startswith_def strip_def isspace_def)
  with C2_openai_stream_output[of ?loads "''chatcmpl-1''" 0 "''claude-sonnet-4.5''" ?blocks]
  show ?thesis by blast
qed

subsection \<open>C10: when the role chunk is sent\<close>

text \<open>
  C10: the role chunk is yielded when the first block parses, whatever the type of its
  event: blocks that do not parse yield nothing, and the first block that parses yields
  the role chunk, then the chunks of its event, and the loop goes on with the flag set.
  So an input that parses to nothing yields only the \<open>[DONE]\<close> block; an input whose
  only event is \<open>message_stop\<close> yields the role chunk, the finish chunk and \<open>[DONE]\<close>;
  and whenever an event was parsed the role chunk is the first block of the output and
  occurs once.
\<close>

theorem C10_role_chunk_on_first_event:
  "(parsed_events loads blocks = [] \<longrightarrow> openai_stream loads sid ts m blocks = [SseDone])
   \<and> (parsed_events loads blocks = [event] \<and> etype event = Some ''message_stop'' \<longrightarrow>
        openai_stream loads sid ts m blocks
          = [role_chunk sid ts m, finish_chunk sid ts m, SseDone])
   \<and> ((\<forall>b \<in> set skipped. parse_block loads b = None) \<and> parse_block loads block = Some event \<longrightarrow>
        openai_stream loads sid ts m (skipped @ block # rest)
          = role_chunk sid ts m # event_chunks sid ts m event
            @ openai_stream_loop loads sid ts m True rest)
   \<and> (parsed_events loads blocks \<noteq> [] \<longrightarrow>
        hd (openai_stream loads sid ts m blocks) = role_chunk sid ts m
        \<and> count_list (openai_stream loads sid ts m blocks) (role_chunk sid ts m) = 1)"
proof (intro conjI impI)
  assume "parsed_events loads blocks = []"
  then show "openai_stream loads sid ts m blocks = [SseDone]"
    by (simp add: openai_stream_eq)
next
  assume "parsed_events loads blocks = [event] \<and> etype event = Some ''message_stop''"
  then show "openai_stream loads sid ts m blocks
      = [role_chunk sid ts m, finish_chunk sid ts m, SseDone]"
    by (simp add: openai_stream_eq event_chunks_def)
next
  assume h: "(\<forall>b \<in> set skipped. parse_block loads b = None)
      \<and> parse_block loads block = Some event"
  then have "\<forall>b \<in> set skipped. parse_block loads b = None" by simp
  then have skip: "openai_stream_loop loads sid ts m False (skipped @ block # rest)
      = openai_stream_loop loads sid ts m False (block # rest)"
    by (induction skipped) simp_all
  from h show "openai_stream loads sid ts m (skipped @ block # rest)
      = role_chunk sid ts m # event_chunks sid ts m event
        @ openai_stream_loop loads sid ts m True rest"
    by (simp add: openai_stream_def skip)
next
  assume ne: "parsed_events loads blocks \<noteq> []"
  then show "hd (openai_stream loads sid ts m blocks) = role_chunk sid ts m"
    by (simp add: openai_stream_eq)
  from ne show "count_list (openai_stream loads sid ts m blocks) (role_chunk sid ts m) = 1"
    by (simp add: openai_stream_eq count_list_append event_chunks_no_role chunk_distinct)
qed

theorem C10_role_chunk_on_first_event_witness:
  \<open>openai_stream
     [''{"type": "message_stop"}'' \<mapsto> \<lparr>etype = Some ''message_stop'', edelta = None\<rparr>]
     ''chatcmpl-1'' 0 ''claude-sonnet-4.5''
     [''event: message_stop\<newline>data: {"type": "message_stop"}\<newline>\<newline>'']
   = [role_chunk ''chatcmpl-1'' 0 ''claude-sonnet-4.5'',
      finish_chunk ''chatcmpl-1'' 0 ''claude-sonnet-4.5'', SseDone]
   \<and> openai_stream
     [''{"type": "message_stop"}'' \<mapsto> \<lparr>etype = Some ''message_stop'', edelta = None\<rparr>]
     ''chatcmpl-1'' 0 ''claude-sonnet-4.5''
     [''event: ping\<newline>data: {"type": \<newline>\<newline>'', '': keep-alive\<newline>\<newline>'']
   = [SseDone]\<close>
proof -
  let ?loads = \<open>[''{"type": "message_stop"}'' \<mapsto> \<lparr>etype = Some ''message_stop'', edelta = None\<rparr>]\<close>
  let ?stop = \<open>[''event: message_stop\<newline>data: {"type": "message_stop"}\<newline>\<newline>'']\<close>
  let ?junk = \<open>[''event: ping\<newline>data: {"type": \<newline>\<newline>'', '': keep-alive\<newline>\<newline>'']\<close>
  have a: "parsed_events ?loads ?stop = [\<lparr>etype = Some ''message_stop'', edelta = None\<rparr>]
      \<and> etype \<lparr>etype = Some ''message_stop'', edelta = None\<rparr> = Some ''message_stop''"
    by (simp add: parsed_events_def List.map_filter_simps parse_block_def scan_lines_def
        startswith_def strip_def isspace_def)
  have b: "parsed_events ?loads ?junk = []"
    by (simp add: parsed_events_def List.map_filter_simps parse_block_def scan_lines_def
        startswith_def strip_def isspace_def)
  from C10_role_chunk_on_first_event
    [of ?loads ?stop "''chatcmpl-1''" 0 "''claude-sonnet-4.5''"
      "\<lparr>etype = Some ''message_stop'', edelta = None\<rparr>"] a
  have 1: "openai_stream ?loads ''chatcmpl-1'' 0 ''claude-sonnet-4.5'' ?stop
      = [role_chunk ''chatcmpl-1'' 0 ''claude-sonnet-4.5'',
         finish_chunk ''chatcmpl-1'' 0 ''claude-sonnet-4.5'', SseDone]"
    by blast
  from C10_role_chunk_on_first_event
    [of ?loads ?junk "''chatcmpl-1''" 0 "''claude-sonnet-4.5''"] b
  have 2: "openai_stream ?loads ''chatcmpl-1'' 0 ''claude-sonnet-4.5'' ?junk = [SseDone]"
    by blast
  from 1 2 show ?thesis by (rule conjI)
qed

subsection \<open>C5: the answer without streaming\<close>

text \<open>
  C5 asks that the answer to a call with \<open>stream = false\<close> carries the concatenated text
  of the content deltas of the backend's reply. The source reads the reply chunk by chunk
  with \<open>pass\<close> as the loop body (its comment says the event stream should be parsed
  there), so \<open>full_text\<close> stays empty: whatever the body of a reply with status 200, the
  message content of the answer is the empty string.
\<close>

theorem C5_non_streaming_content_is_empty:
  "chat_completions_non_streaming ts uuid m 200 error_text body_chunks
     = Inr (openai_non_streaming_response ts uuid [] m)
   \<and> map (\<lambda>c. msg_content (c_message c))
       (completion_choices (openai_non_streaming_response ts uuid [] m)) = [[]]"
proof -
  have "foldl (\<lambda>full_text chunk. full_text) [] body_chunks = ([] :: string)"
    by (induction body_chunks) simp_all
  then show ?thesis
    by (simp add: chat_completions_non_streaming_def openai_non_streaming_response_def)
qed

section \<open>Properties of the renewal of accounts\<close>

lemma index_of_ids:
  "map acc_id xs = map acc_id ys \<Longrightarrow> index_of aid xs = index_of aid ys"
proof (induction xs arbitrary: ys)
  case Nil
  then show ?case by simp
next
  case (Cons x xs)
  then obtain y ys' where "ys = y # ys'" by (cases ys) auto
  with Cons show ?case by auto
qed

lemma index_of_distinct:
  "distinct (map acc_id xs) \<Longrightarrow> i < length xs \<Longrightarrow> index_of (acc_id (xs ! i)) xs = Some i"
proof (induction xs arbitrary: i)
  case Nil
  then show ?case by simp
next
  case (Cons x xs)
  show ?case
  proof (cases i)
    case 0
    then show ?thesis by simp
  next
    case (Suc k)
    with Cons.prems have "acc_id (xs ! k) \<noteq> acc_id x" by (auto simp: image_iff) (metis nth_mem)
    with Cons Suc show ?thesis by simp
  qed
qed

lemma length_set_active [simp]: "length (set_active i b xs) = length xs"
  by (simp add: set_active_def)

lemma length_deactivate_all [simp]: "length (deactivate_all xs) = length xs"
  by (simp add: deactivate_all_def)

lemma length_activate_by_id [simp]: "length (activate_by_id aid xs) = length xs"
  by (simp add: activate_by_id_def split: option.splits)

lemma length_update_refresh_status [simp]:
  "length (snd (update_refresh_status now aid st xs)) = length xs"
  by (simp add: update_refresh_status_def split: option.splits)

lemma ids_set_active [simp]: "map acc_id (set_active i b xs) = map acc_id xs"
  by (simp add: set_active_def map_update) (metis list_update_id map_update)

lemma ids_deactivate_all [simp]: "map acc_id (deactivate_all xs) = map acc_id xs"
  by (simp add: deactivate_all_def)

lemma ids_activate_by_id [simp]: "map acc_id (activate_by_id aid xs) = map acc_id xs"
  by (simp add: activate_by_id_def split: option.splits)

lemma ids_update_refresh_status [simp]:
  "map acc_id (snd (update_refresh_status now aid st xs)) = map acc_id xs"
  by (simp add: update_refresh_status_def map_update split: option.splits)
     (metis list_update_id map_update)

lemma flags_set_active [simp]:
  "map is_active (set_active i b xs) = (map is_active xs)[i := b]"
  by (simp add: set_active_def map_update)

lemma flags_deactivate_all [simp]:
  "map is_active (deactivate_all xs) = replicate (length xs) False"
  by (induction xs) (simp_all add: deactivate_all_def)

lemma flags_activate_by_id:
  "map is_active (activate_by_id aid xs) =
     (case index_of aid xs of None \<Rightarrow> map is_active xs | Some j \<Rightarrow> (map is_active xs)[j := True])"
  by (simp add: activate_by_id_def split: option.splits)

lemma flags_update_refresh_status [simp]:
  "map is_active (snd (update_refresh_status now aid st xs)) = map is_active xs"
  by (simp add: update_refresh_status_def map_update split: option.splits)
     (metis list_update_id map_update)

lemma replicate_update_same [simp]: "(replicate n x)[i := x] = replicate n x"
  by (cases "i < n") (auto simp: nth_list_update intro!: nth_equalityI)

lemma nth_flags: "j < length xs \<Longrightarrow> is_active (xs ! j) = map is_active xs ! j"
  by simp

text \<open>The manual refresh, path by path.\<close>

lemma manual_success:
  assumes "index_of account_id accounts = Some i" and "\<not> incomplete (accounts ! i)"
    and "refresh i = None"
  shows "refresh_account_token refresh now account_id accounts =
    (let restored = restore_after_success i (last_active_id accounts)
          (snd (update_refresh_status now account_id ''success''
                  (set_active i True (deactivate_all accounts))))
     in (Refreshed (acc_id (restored ! i)) (name (restored ! i))
           (last_refresh_time (restored ! i)) (last_refresh_status (restored ! i)),
         restored))"
proof -
  have len: "i < length accounts" using assms(1) by (rule index_of_bound)
  let ?switched = "set_active i True (deactivate_all accounts)"
  have idn: "acc_id (?switched ! i) = account_id"
    using index_of_nth[OF assms(1)] len
    by (metis ids_deactivate_all ids_set_active length_deactivate_all length_set_active nth_map)
  let ?restored = "restore_after_success i (last_active_id accounts)
          (snd (update_refresh_status now account_id ''success'' ?switched))"
  have ids: "map acc_id ?restored = map acc_id accounts"
    by (simp add: restore_after_success_def Let_def split: option.splits)
  have "index_of account_id ?restored = Some i"
    using index_of_ids[OF ids] assms(1) by simp
  then have "get_account_by_id ?restored account_id = Some (?restored ! i)"
    by (simp add: get_account_by_id_def)
  then show ?thesis
    using assms idn by (simp add: refresh_account_token_def Let_def)
qed

lemma manual_failure:
  assumes "index_of account_id accounts = Some i" and "\<not> incomplete (accounts ! i)"
    and "refresh i = Some e"
  shows "refresh_account_token refresh now account_id accounts =
    (RefreshFailed e,
     restore_after_failure i (last_active_id accounts)
       (snd (update_refresh_status now account_id ''failed''
               (set_active i True (deactivate_all accounts)))))"
proof -
  have len: "i < length accounts" using assms(1) by (rule index_of_bound)
  let ?switched = "set_active i True (deactivate_all accounts)"
  have idn: "acc_id (?switched ! i) = account_id"
    using index_of_nth[OF assms(1)] len
    by (metis ids_deactivate_all ids_set_active length_deactivate_all length_set_active nth_map)
  show ?thesis
    using assms idn by (simp add: refresh_account_token_def Let_def)
qed

lemma only_active_flags:
  "only_active k xs \<longleftrightarrow> k < length xs \<and> map is_active xs = (replicate (length xs) False)[k := True]"
  unfolding only_active_def
  by (auto simp: list_eq_iff_nth_eq nth_list_update split: if_splits)

lemma none_active_flags:
  "none_active xs \<longleftrightarrow> map is_active xs = replicate (length xs) False"
  unfolding none_active_def
  by (auto simp: list_eq_iff_nth_eq)

lemma none_active_filter: "none_active xs \<Longrightarrow> filter is_active xs = []"
  unfolding none_active_def
  by (auto simp: filter_empty_conv in_set_conv_nth)

lemma only_active_filter: "only_active k xs \<Longrightarrow> filter is_active xs = [xs ! k]"
proof (induction xs arbitrary: k)
  case Nil
  then show ?case by (simp add: only_active_def)
next
  case (Cons x xs)
  show ?case
  proof (cases k)
    case 0
    with Cons.prems have "is_active x" and "none_active xs"
      by (auto simp: only_active_def none_active_def)
    then show ?thesis using 0 by (simp add: none_active_filter)
  next
    case (Suc k')
    with Cons.prems have "\<not> is_active x" and "only_active k' xs"
      by (auto simp: only_active_def)
    then show ?thesis using Suc Cons.IH by simp
  qed
qed

lemma only_active_last_id: "only_active k xs \<Longrightarrow> last_active_id xs = Some (acc_id (xs ! k))"
  by (simp add: last_active_id_def only_active_filter)

lemma none_active_last_id: "none_active xs \<Longrightarrow> last_active_id xs = None"
  by (simp add: last_active_id_def none_active_filter)

lemma find_filter_hd: "find P xs = (case filter P xs of [] \<Rightarrow> None | x # _ \<Rightarrow> Some x)"
  by (induction xs) auto

lemma only_active_first_id: "only_active k xs \<Longrightarrow> first_active_id xs = Some (acc_id (xs ! k))"
  by (simp add: first_active_id_def find_filter_hd only_active_filter)

lemma none_active_first_id: "none_active xs \<Longrightarrow> first_active_id xs = None"
  by (simp add: first_active_id_def find_filter_hd none_active_filter)

lemma flags_restore_after_success:
  assumes "map is_active xs = (replicate (length xs) False)[i := True]"
  shows "map is_active (restore_after_success i old xs) =
     (case old of
        None \<Rightarrow> (replicate (length xs) False)[i := True]
      | Some oid \<Rightarrow>
          if oid = [] then replicate (length xs) False
          else (case index_of oid xs of
                  None \<Rightarrow> replicate (length xs) False
                | Some k \<Rightarrow> (replicate (length xs) False)[k := True]))"
  using assms
  by (auto simp: restore_after_success_def Let_def flags_activate_by_id
      index_of_ids[of "set_active i False xs" xs] split: option.splits)

lemma flags_restore_after_failure:
  assumes "map is_active xs = (replicate (length xs) False)[i := True]"
  shows "map is_active (restore_after_failure i old xs) =
     (case old of
        None \<Rightarrow> replicate (length xs) False
      | Some oid \<Rightarrow>
          if oid = [] then replicate (length xs) False
          else (case index_of oid xs of
                  None \<Rightarrow> replicate (length xs) False
                | Some k \<Rightarrow> (replicate (length xs) False)[k := True]))"
  using assms
  by (auto simp: restore_after_failure_def Let_def flags_activate_by_id
      index_of_ids[of "set_active i False xs" xs] split: option.splits)

lemma deactivate_all_Nil [simp]: "(deactivate_all xs = []) = (xs = [])"
  by (simp add: deactivate_all_def)

lemma flags_restore_after_all:
  "map is_active (restore_after_all old xs) =
     (if old \<noteq> None \<and> old \<noteq> Some []
      then (case index_of (the old) xs of
              None \<Rightarrow> replicate (length xs) False
            | Some k \<Rightarrow> (replicate (length xs) False)[k := True])
      else if xs \<noteq> [] then (replicate (length xs) False)[0 := True]
      else [])"
  by (auto simp: restore_after_all_def Let_def flags_activate_by_id
      index_of_ids[of "deactivate_all xs" xs] split: option.splits)

lemma flags_switched:
  "i < length xs \<Longrightarrow>
   map is_active (snd (update_refresh_status now aid st (set_active i True (deactivate_all xs))))
     = (replicate (length (snd (update_refresh_status now aid st
           (set_active i True (deactivate_all xs))))) False)[i := True]"
  by simp

lemma manual_unchanged:
  "index_of account_id accounts = None \<or>
   (\<exists>i. index_of account_id accounts = Some i \<and> incomplete (accounts ! i)) \<Longrightarrow>
   snd (refresh_account_token refresh now account_id accounts) = accounts"
  by (auto simp: refresh_account_token_def)

lemma manual_ids:
  "map acc_id (snd (refresh_account_token refresh now account_id accounts)) = map acc_id accounts"
proof (cases "index_of account_id accounts")
  case None
  then show ?thesis by (simp add: manual_unchanged)
next
  case (Some i)
  show ?thesis
  proof (cases "incomplete (accounts ! i)")
    case True
    with Some show ?thesis by (simp add: manual_unchanged)
  next
    case False
    show ?thesis
    proof (cases "refresh i")
      case None
      from manual_success[where refresh = refresh and now = now, OF Some False None] show ?thesis
        by (simp add: Let_def restore_after_success_def split: option.splits)
    next
      case (Some e)
      from manual_failure[where refresh = refresh and now = now, OF \<open>index_of account_id accounts = Some i\<close> False Some] show ?thesis
        by (simp add: Let_def restore_after_failure_def split: option.splits)
    qed
  qed
qed

lemma manual_only_active:
  assumes d: "distinct (map acc_id accounts)"
    and ne: "acc_id (accounts ! k) \<noteq> []"
    and act: "only_active k accounts"
  shows "only_active k (snd (refresh_account_token refresh now account_id accounts))"
proof (cases "index_of account_id accounts")
  case None
  with act show ?thesis by (simp add: manual_unchanged)
next
  case (Some i)
  have k: "k < length accounts" using act by (simp add: only_active_def)
  have len: "i < length accounts" using Some by (rule index_of_bound)
  have old: "last_active_id accounts = Some (acc_id (accounts ! k))"
    using act by (rule only_active_last_id)
  show ?thesis
  proof (cases "incomplete (accounts ! i)")
    case True
    with Some act show ?thesis by (simp add: manual_unchanged)
  next
    case False
    let ?rec = "\<lambda>st. snd (update_refresh_status now account_id st
        (set_active i True (deactivate_all accounts)))"
    have idx: "index_of (acc_id (accounts ! k)) (?rec st) = Some k" for st
      using index_of_ids[of "?rec st" accounts "acc_id (accounts ! k)"]
        index_of_distinct[OF d k] by simp
    show ?thesis
    proof (cases "refresh i")
      case None
      have "map is_active (restore_after_success i (last_active_id accounts) (?rec ''success''))
          = (replicate (length accounts) False)[k := True]"
        using flags_restore_after_success[where xs = "?rec ''success''" and i = i
              and old = "last_active_id accounts", OF flags_switched[OF len]]
          old ne idx[of "''success''"]
        by simp
      then show ?thesis
        using manual_success[where refresh = refresh and now = now, OF Some False None] k
        by (simp add: Let_def only_active_flags restore_after_success_def split: option.splits)
    next
      case (Some e)
      have "map is_active (restore_after_failure i (last_active_id accounts) (?rec ''failed''))
          = (replicate (length accounts) False)[k := True]"
        using flags_restore_after_failure[where xs = "?rec ''failed''" and i = i
              and old = "last_active_id accounts", OF flags_switched[OF len]]
          old ne idx[of "''failed''"]
        by simp
      then show ?thesis
        using manual_failure[where refresh = refresh and now = now,
            OF \<open>index_of account_id accounts = Some i\<close> False Some] k
        by (simp add: Let_def only_active_flags restore_after_failure_def split: option.splits)
    qed
  qed
qed

lemma manual_none_active_success:
  assumes "none_active accounts"
    and "index_of account_id accounts = Some i"
    and "\<not> incomplete (accounts ! i)"
    and "refresh i = None"
  shows "only_active i (snd (refresh_account_token refresh now account_id accounts))"
proof -
  have len: "i < length accounts" using assms(2) by (rule index_of_bound)
  have old: "last_active_id accounts = None" using assms(1) by (rule none_active_last_id)
  have "map is_active (restore_after_success i (last_active_id accounts)
          (snd (update_refresh_status now account_id ''success''
            (set_active i True (deactivate_all accounts)))))
      = (replicate (length accounts) False)[i := True]"
    using flags_restore_after_success[where xs = "snd (update_refresh_status now account_id
          ''success'' (set_active i True (deactivate_all accounts)))" and i = i
          and old = "last_active_id accounts", OF flags_switched[OF len]] old
    by simp
  then show ?thesis
    using manual_success[where refresh = refresh and now = now, OF assms(2,3,4)] len
    by (simp add: Let_def only_active_flags restore_after_success_def split: option.splits)
qed

lemma refresh_all_step_ids:
  "map acc_id (fst (refresh_all_step refresh clock st i)) = map acc_id (fst st)"
  by (cases st) (simp add: refresh_all_step_def Let_def split: option.splits)

lemma refresh_all_fold_ids:
  "map acc_id (fst (foldl (refresh_all_step refresh clock) st js)) = map acc_id (fst st)"
  by (induction js arbitrary: st) (simp_all add: refresh_all_step_ids)

lemma refresh_all_result:
  "accounts \<noteq> [] \<Longrightarrow>
   snd (refresh_all_accounts refresh clock accounts) =
     restore_after_all (first_active_id accounts)
       (fst (foldl (refresh_all_step refresh clock) (accounts, 0, 0, []) [0..<length accounts]))"
  by (simp add: refresh_all_accounts_def Let_def split: prod.splits)

lemma refresh_all_ids:
  "map acc_id (snd (refresh_all_accounts refresh clock accounts)) = map acc_id accounts"
proof (cases "accounts = []")
  case True
  then show ?thesis by (simp add: refresh_all_accounts_def)
next
  case False
  have "map acc_id (restore_after_all old xs) = map acc_id xs" for old and xs :: "tracked_account list"
    by (simp add: restore_after_all_def Let_def)
  with False show ?thesis by (simp add: refresh_all_result refresh_all_fold_ids)
qed

lemma length_restore_after_all [simp]: "length (restore_after_all old xs) = length xs"
  by (auto simp: restore_after_all_def Let_def)

lemma refresh_all_only_active:
  assumes d: "distinct (map acc_id accounts)"
    and ne: "acc_id (accounts ! k) \<noteq> []"
    and act: "only_active k accounts"
  shows "only_active k (snd (refresh_all_accounts refresh clock accounts))"
proof -
  have k: "k < length accounts" using act by (simp add: only_active_def)
  then have nonempty: "accounts \<noteq> []" by auto
  let ?renewed = "fst (foldl (refresh_all_step refresh clock) (accounts, 0, 0, [])
      [0..<length accounts])"
  have ids: "map acc_id ?renewed = map acc_id accounts"
    by (simp add: refresh_all_fold_ids)
  then have len: "length ?renewed = length accounts" by (metis length_map)
  have old: "first_active_id accounts = Some (acc_id (accounts ! k))"
    using act by (rule only_active_first_id)
  have idx: "index_of (acc_id (accounts ! k)) ?renewed = Some k"
    using index_of_ids[OF ids] index_of_distinct[OF d k] by simp
  have "map is_active (restore_after_all (first_active_id accounts) ?renewed)
      = (replicate (length accounts) False)[k := True]"
    using old ne idx len by (simp add: flags_restore_after_all)
  moreover have "length (restore_after_all (first_active_id accounts) ?renewed) = length accounts"
    using len by simp
  ultimately show ?thesis
    using k nonempty by (simp add: refresh_all_result only_active_flags)
qed

lemma refresh_all_none_active:
  assumes "accounts \<noteq> []" and "none_active accounts"
  shows "only_active 0 (snd (refresh_all_accounts refresh clock accounts))"
proof -
  let ?renewed = "fst (foldl (refresh_all_step refresh clock) (accounts, 0, 0, [])
      [0..<length accounts])"
  have ids: "map acc_id ?renewed = map acc_id accounts"
    by (simp add: refresh_all_fold_ids)
  then have len: "length ?renewed = length accounts" by (metis length_map)
  then have ne: "?renewed \<noteq> []" using assms(1) by auto
  have old: "first_active_id accounts = None"
    using assms(2) by (rule none_active_first_id)
  have "map is_active (restore_after_all (first_active_id accounts) ?renewed)
      = (replicate (length accounts) False)[0 := True]"
    using old len ne by (simp add: flags_restore_after_all)
  moreover have "length (restore_after_all (first_active_id accounts) ?renewed) = length accounts"
    using len by simp
  ultimately show ?thesis
    using assms(1) by (simp add: refresh_all_result only_active_flags)
qed

lemma map_update_same: "f (g (xs ! i)) = f (xs ! i) \<Longrightarrow> map f (xs[i := g (xs ! i)]) = map f xs"
  by (metis list_update_id map_update)

lemma identity_set_active [simp]: "map identity_of (set_active i b xs) = map identity_of xs"
  unfolding set_active_def by (rule map_update_same[of identity_of]) (simp add: identity_of_def)

lemma identity_deactivate_all [simp]: "map identity_of (deactivate_all xs) = map identity_of xs"
  by (simp add: deactivate_all_def identity_of_def)

lemma identity_update_refresh_status [simp]:
  "map identity_of (snd (update_refresh_status now aid st xs)) = map identity_of xs"
proof (cases "index_of aid xs")
  case None
  then show ?thesis by (simp add: update_refresh_status_def)
next
  case (Some i)
  have "map identity_of (xs[i := (xs ! i)\<lparr>last_refresh_time := Some now,
      last_refresh_status := Some st\<rparr>]) = map identity_of xs"
    by (rule map_update_same[of identity_of]) (simp add: identity_of_def)
  with Some show ?thesis by (simp add: update_refresh_status_def)
qed

lemma book_set_active [simp]: "map bookkeeping (set_active i b xs) = map bookkeeping xs"
  unfolding set_active_def by (rule map_update_same[of bookkeeping]) (simp add: bookkeeping_def)

lemma book_deactivate_all [simp]: "map bookkeeping (deactivate_all xs) = map bookkeeping xs"
  by (simp add: deactivate_all_def bookkeeping_def)

lemma book_activate_by_id [simp]: "map bookkeeping (activate_by_id aid xs) = map bookkeeping xs"
  by (simp add: activate_by_id_def split: option.splits)

lemma book_restore_after_success [simp]:
  "map bookkeeping (restore_after_success i old xs) = map bookkeeping xs"
  by (simp add: restore_after_success_def Let_def split: option.splits)

lemma book_restore_after_failure [simp]:
  "map bookkeeping (restore_after_failure i old xs) = map bookkeeping xs"
  by (simp add: restore_after_failure_def Let_def split: option.splits)

lemma book_restore_after_all [simp]:
  "map bookkeeping (restore_after_all old xs) = map bookkeeping xs"
  by (simp add: restore_after_all_def Let_def)

lemma book_update_refresh_status:
  "index_of aid xs = Some i \<Longrightarrow>
   map bookkeeping (snd (update_refresh_status now aid st xs))
     = (map bookkeeping xs)[i := (Some now, Some st)]"
  by (simp add: update_refresh_status_def map_update bookkeeping_def)

lemma incomplete_identity: "identity_of a = identity_of b \<Longrightarrow> incomplete a = incomplete b"
  by (simp add: identity_of_def incomplete_def)

lemma nth_view: "map f xs = map f ys \<Longrightarrow> i < length xs \<Longrightarrow> f (xs ! i) = f (ys ! i)"
  by (metis length_map nth_map)

lemma ids_of_identity: "map identity_of xs = map identity_of ys \<Longrightarrow> map acc_id xs = map acc_id ys"
  by (auto simp: list_eq_iff_nth_eq identity_of_def)

lemma view_nth: "map f xs = ys \<Longrightarrow> i < length xs \<Longrightarrow> f (xs ! i) = ys ! i"
  by auto

lemma length_restore_after_success [simp]: "length (restore_after_success i old xs) = length xs"
  by (simp add: restore_after_success_def Let_def split: option.splits)

lemma length_restore_after_failure [simp]: "length (restore_after_failure i old xs) = length xs"
  by (simp add: restore_after_failure_def Let_def split: option.splits)

text \<open>The outcome the manual refresh records, and its answer.\<close>

lemma manual_recorded:
  assumes f: "index_of account_id accounts = Some i" and c: "\<not> incomplete (accounts ! i)"
  shows "bookkeeping (snd (refresh_account_token refresh now account_id accounts) ! i)
      = (Some now, Some (status_of (refresh i)))"
    and "fst (refresh_account_token refresh now account_id accounts) =
      (case refresh i of
         None \<Rightarrow> Refreshed account_id (name (accounts ! i)) (Some now) (Some ''success'')
       | Some e \<Rightarrow> RefreshFailed e)"
proof -
  have len: "i < length accounts" using f by (rule index_of_bound)
  let ?switched = "set_active i True (deactivate_all accounts)"
  have idx: "index_of account_id ?switched = Some i"
    using index_of_ids[of ?switched accounts account_id] f by simp
  have book: "map bookkeeping (snd (update_refresh_status now account_id st ?switched))
      = (map bookkeeping accounts)[i := (Some now, Some st)]" for st
    using book_update_refresh_status[OF idx] by simp
  have ident: "map identity_of (snd (update_refresh_status now account_id st ?switched))
      = map identity_of accounts" for st
    by simp
  show "bookkeeping (snd (refresh_account_token refresh now account_id accounts) ! i)
      = (Some now, Some (status_of (refresh i)))"
  proof (cases "refresh i")
    case None
    let ?restored = "restore_after_success i (last_active_id accounts)
        (snd (update_refresh_status now account_id ''success'' ?switched))"
    have eq: "map bookkeeping ?restored = (map bookkeeping accounts)[i := (Some now, Some ''success'')]"
      using book by simp
    have li: "i < length ?restored" using len by simp
    have "bookkeeping (?restored ! i) = (Some now, Some ''success'')"
      using view_nth[OF eq li] len by simp
    then show ?thesis
      using manual_success[where refresh = refresh and now = now, OF f c None] None
      by (simp add: Let_def status_of_def)
  next
    case (Some e)
    let ?restored = "restore_after_failure i (last_active_id accounts)
        (snd (update_refresh_status now account_id ''failed'' ?switched))"
    have eq: "map bookkeeping ?restored = (map bookkeeping accounts)[i := (Some now, Some ''failed'')]"
      using book by simp
    have li: "i < length ?restored" using len by simp
    have "bookkeeping (?restored ! i) = (Some now, Some ''failed'')"
      using view_nth[OF eq li] len by simp
    then show ?thesis
      using manual_failure[where refresh = refresh and now = now, OF f c Some] Some
      by (simp add: status_of_def)
  qed
  show "fst (refresh_account_token refresh now account_id accounts) =
      (case refresh i of
         None \<Rightarrow> Refreshed account_id (name (accounts ! i)) (Some now) (Some ''success'')
       | Some e \<Rightarrow> RefreshFailed e)"
  proof (cases "refresh i")
    case None
    let ?restored = "restore_after_success i (last_active_id accounts)
        (snd (update_refresh_status now account_id ''success'' ?switched))"
    have li: "i < length ?restored" using len by simp
    have eq: "map bookkeeping ?restored = (map bookkeeping accounts)[i := (Some now, Some ''success'')]"
      using book by simp
    have b: "bookkeeping (?restored ! i) = (Some now, Some ''success'')"
      using view_nth[OF eq li] len by simp
    have "map identity_of ?restored = map identity_of accounts"
      by (simp add: restore_after_success_def Let_def activate_by_id_def split: option.splits)
    then have "identity_of (?restored ! i) = identity_of (accounts ! i)"
      using li by (rule nth_view)
    then have "acc_id (?restored ! i) = account_id \<and> name (?restored ! i) = name (accounts ! i)"
      using index_of_nth[OF f] by (simp add: identity_of_def)
    with b show ?thesis
      using manual_success[where refresh = refresh and now = now, OF f c None] None
      by (simp add: Let_def bookkeeping_def)
  next
    case (Some e)
    then show ?thesis
      using manual_failure[where refresh = refresh and now = now, OF f c Some]
      by simp
  qed
qed

lemma due_bookkeeping: "bookkeeping a = bookkeeping b \<Longrightarrow> due now a = due now b"
  by (simp add: bookkeeping_def due_def)

lemma index_of_identity_distinct:
  assumes "distinct (map acc_id accounts)" and "map identity_of xs = map identity_of accounts"
    and "k < length accounts"
  shows "index_of (acc_id (xs ! k)) xs = Some k"
proof -
  have ids: "map acc_id xs = map acc_id accounts" using assms(2) by (rule ids_of_identity)
  then have "length xs = length accounts" by (metis length_map)
  with ids assms(3) have "acc_id (xs ! k) = acc_id (accounts ! k)" by (metis nth_map)
  then show ?thesis
    using index_of_ids[OF ids] index_of_distinct[OF assms(1,3)] by simp
qed

lemma refresh_all_step_views:
  assumes "index_of (acc_id (xs ! i)) xs = Some i"
  shows "refresh_all_step refresh clock (xs, sc, fc, es) i =
    (if incomplete (xs ! i) then xs
     else snd (update_refresh_status (clock i) (acc_id (xs ! i)) (status_of (refresh i))
                 (set_active i True (deactivate_all xs))),
     sc + (if \<not> incomplete (xs ! i) \<and> refresh i = None then 1 else 0),
     fc + (if incomplete (xs ! i) \<or> refresh i \<noteq> None then 1 else 0),
     es @ [(acc_id (xs ! i), name (xs ! i),
            if incomplete (xs ! i) then Skipped else entry_of (refresh i))])"
proof -
  have len: "i < length xs" using assms by (rule index_of_bound)
  have "acc_id (set_active i True (deactivate_all xs) ! i) = acc_id (xs ! i)"
    using len by (metis ids_deactivate_all ids_set_active length_deactivate_all
        length_set_active nth_map)
  then show ?thesis
    by (simp add: refresh_all_step_def Let_def status_of_def entry_of_def split: option.splits)
qed

lemma sweep_step_views:
  assumes "index_of (acc_id (xs ! i)) xs = Some i"
  shows "map identity_of (sweep_step refresh clock now xs i) = map identity_of xs"
    and "map bookkeeping (sweep_step refresh clock now xs i) =
      (if due now (xs ! i)
       then (map bookkeeping xs)[i := (Some (clock i), Some (status_of (refresh i)))]
       else map bookkeeping xs)"
proof -
  have len: "i < length xs" using assms by (rule index_of_bound)
  let ?switched = "set_active i True (deactivate_all xs)"
  have idn: "acc_id (?switched ! i) = acc_id (xs ! i)"
    using len by (metis ids_deactivate_all ids_set_active length_deactivate_all
        length_set_active nth_map)
  have idx: "index_of (acc_id (xs ! i)) ?switched = Some i"
    using index_of_ids[of ?switched xs] assms by simp
  show "map identity_of (sweep_step refresh clock now xs i) = map identity_of xs"
    by (simp add: sweep_step_def Let_def split: option.splits)
  show "map bookkeeping (sweep_step refresh clock now xs i) =
      (if due now (xs ! i)
       then (map bookkeeping xs)[i := (Some (clock i), Some (status_of (refresh i)))]
       else map bookkeeping xs)"
    using idn book_update_refresh_status[OF idx]
    by (simp add: sweep_step_def Let_def status_of_def split: option.splits)
qed


lemma upt_update_map:
  assumes "k < n" and "\<And>j. j < n \<Longrightarrow> j \<noteq> k \<Longrightarrow> g j = f j" and "g k = v"
  shows "(map f [0..<n])[k := v] = map g [0..<n]"
  using assms by (intro nth_equalityI) (auto simp: nth_list_update)

lemma upt_same_map:
  assumes "\<And>j. j < n \<Longrightarrow> g j = f j"
  shows "map f [0..<n] = map g [0..<n]"
  using assms by (intro nth_equalityI) auto

lemma refresh_all_fold:
  assumes d: "distinct (map acc_id accounts)" and k: "k \<le> length accounts"
  shows "\<exists>xs. foldl (refresh_all_step refresh clock) (accounts, 0, 0, []) [0..<k] =
      (xs,
       length (filter (\<lambda>j. \<not> incomplete (accounts ! j) \<and> refresh j = None) [0..<k]),
       length (filter (\<lambda>j. incomplete (accounts ! j) \<or> refresh j \<noteq> None) [0..<k]),
       map (\<lambda>j. (acc_id (accounts ! j), name (accounts ! j),
                  if incomplete (accounts ! j) then Skipped else entry_of (refresh j))) [0..<k])
    \<and> map identity_of xs = map identity_of accounts
    \<and> map bookkeeping xs =
        map (\<lambda>j. if j < k \<and> \<not> incomplete (accounts ! j)
                  then (Some (clock j), Some (status_of (refresh j)))
                  else bookkeeping (accounts ! j)) [0..<length accounts]"
  using k
proof (induction k)
  case 0
  have "map bookkeeping accounts = map (\<lambda>j. bookkeeping (accounts ! j)) [0..<length accounts]"
    by (intro nth_equalityI) auto
  then show ?case by simp
next
  case (Suc k)
  then have kl: "k < length accounts" by simp
  from Suc obtain xs where
    fold: "foldl (refresh_all_step refresh clock) (accounts, 0, 0, []) [0..<k] =
      (xs,
       length (filter (\<lambda>j. \<not> incomplete (accounts ! j) \<and> refresh j = None) [0..<k]),
       length (filter (\<lambda>j. incomplete (accounts ! j) \<or> refresh j \<noteq> None) [0..<k]),
       map (\<lambda>j. (acc_id (accounts ! j), name (accounts ! j),
                  if incomplete (accounts ! j) then Skipped else entry_of (refresh j))) [0..<k])"
    and ident: "map identity_of xs = map identity_of accounts"
    and book: "map bookkeeping xs =
        map (\<lambda>j. if j < k \<and> \<not> incomplete (accounts ! j)
                  then (Some (clock j), Some (status_of (refresh j)))
                  else bookkeeping (accounts ! j)) [0..<length accounts]"
    by auto
  have lx: "length xs = length accounts" using ident by (metis length_map)
  have idx: "index_of (acc_id (xs ! k)) xs = Some k"
    using d ident kl by (rule index_of_identity_distinct)
  have same: "identity_of (xs ! k) = identity_of (accounts ! k)"
    using ident kl lx by (metis nth_map)
  then have inc: "incomplete (xs ! k) = incomplete (accounts ! k)"
    by (rule incomplete_identity)
  from same have nm: "acc_id (xs ! k) = acc_id (accounts ! k) \<and> name (xs ! k) = name (accounts ! k)"
    by (simp add: identity_of_def)
  let ?xs' = "if incomplete (xs ! k) then xs
     else snd (update_refresh_status (clock k) (acc_id (xs ! k)) (status_of (refresh k))
                 (set_active k True (deactivate_all xs)))"
  have idx': "index_of (acc_id (xs ! k)) (set_active k True (deactivate_all xs)) = Some k"
    using index_of_ids[of "set_active k True (deactivate_all xs)" xs] idx by simp
  have ident': "map identity_of ?xs' = map identity_of accounts"
    using ident by simp
  have book': "map bookkeeping ?xs' =
        map (\<lambda>j. if j < Suc k \<and> \<not> incomplete (accounts ! j)
                  then (Some (clock j), Some (status_of (refresh j)))
                  else bookkeeping (accounts ! j)) [0..<length accounts]"
  proof (cases "incomplete (accounts ! k)")
    case True
    have "map (\<lambda>j. if j < k \<and> \<not> incomplete (accounts ! j)
                  then (Some (clock j), Some (status_of (refresh j)))
                  else bookkeeping (accounts ! j)) [0..<length accounts]
        = map (\<lambda>j. if j < Suc k \<and> \<not> incomplete (accounts ! j)
                  then (Some (clock j), Some (status_of (refresh j)))
                  else bookkeeping (accounts ! j)) [0..<length accounts]"
      using True by (intro upt_same_map) (auto simp: less_Suc_eq)
    with True inc book show ?thesis by simp
  next
    case False
    have "(map (\<lambda>j. if j < k \<and> \<not> incomplete (accounts ! j)
                  then (Some (clock j), Some (status_of (refresh j)))
                  else bookkeeping (accounts ! j)) [0..<length accounts])
            [k := (Some (clock k), Some (status_of (refresh k)))]
        = map (\<lambda>j. if j < Suc k \<and> \<not> incomplete (accounts ! j)
                  then (Some (clock j), Some (status_of (refresh j)))
                  else bookkeeping (accounts ! j)) [0..<length accounts]"
      using False kl by (intro upt_update_map) (auto simp: less_Suc_eq)
    with False inc book book_update_refresh_status[OF idx'] show ?thesis by simp
  qed
  have step: "foldl (refresh_all_step refresh clock) (accounts, 0, 0, []) [0..<Suc k] =
      (?xs',
       length (filter (\<lambda>j. \<not> incomplete (accounts ! j) \<and> refresh j = None) [0..<Suc k]),
       length (filter (\<lambda>j. incomplete (accounts ! j) \<or> refresh j \<noteq> None) [0..<Suc k]),
       map (\<lambda>j. (acc_id (accounts ! j), name (accounts ! j),
                  if incomplete (accounts ! j) then Skipped else entry_of (refresh j)))
         [0..<Suc k])"
    using fold refresh_all_step_views[OF idx, of refresh clock] inc nm
    by simp
  from step ident' book' show ?case by blast
qed

lemma sweep_fold:
  assumes d: "distinct (map acc_id accounts)" and k: "k \<le> length accounts"
  shows "map identity_of (foldl (sweep_step refresh clock now) accounts [0..<k])
      = map identity_of accounts
    \<and> map bookkeeping (foldl (sweep_step refresh clock now) accounts [0..<k]) =
        map (\<lambda>j. if j < k \<and> due now (accounts ! j)
                  then (Some (clock j), Some (status_of (refresh j)))
                  else bookkeeping (accounts ! j)) [0..<length accounts]"
  using k
proof (induction k)
  case 0
  have "map bookkeeping accounts = map (\<lambda>j. bookkeeping (accounts ! j)) [0..<length accounts]"
    by (intro nth_equalityI) auto
  then show ?case by simp
next
  case (Suc k)
  then have kl: "k < length accounts" by simp
  let ?xs = "foldl (sweep_step refresh clock now) accounts [0..<k]"
  from Suc have ident: "map identity_of ?xs = map identity_of accounts"
    and book: "map bookkeeping ?xs =
        map (\<lambda>j. if j < k \<and> due now (accounts ! j)
                  then (Some (clock j), Some (status_of (refresh j)))
                  else bookkeeping (accounts ! j)) [0..<length accounts]"
    by auto
  have lx: "length ?xs = length accounts" using ident by (metis length_map)
  have idx: "index_of (acc_id (?xs ! k)) ?xs = Some k"
    using d ident kl by (rule index_of_identity_distinct)
  have "bookkeeping (?xs ! k) = bookkeeping (accounts ! k)"
    using view_nth[OF book] kl lx by simp
  then have du: "due now (?xs ! k) = due now (accounts ! k)" by (rule due_bookkeeping)
  have step: "foldl (sweep_step refresh clock now) accounts [0..<Suc k]
      = sweep_step refresh clock now ?xs k"
    by simp
  have ident': "map identity_of (sweep_step refresh clock now ?xs k) = map identity_of accounts"
    using sweep_step_views(1)[OF idx] ident by simp
  have book': "map bookkeeping (sweep_step refresh clock now ?xs k) =
        map (\<lambda>j. if j < Suc k \<and> due now (accounts ! j)
                  then (Some (clock j), Some (status_of (refresh j)))
                  else bookkeeping (accounts ! j)) [0..<length accounts]"
  proof (cases "due now (accounts ! k)")
    case True
    have "(map (\<lambda>j. if j < k \<and> due now (accounts ! j)
                  then (Some (clock j), Some (status_of (refresh j)))
                  else bookkeeping (accounts ! j)) [0..<length accounts])
            [k := (Some (clock k), Some (status_of (refresh k)))]
        = map (\<lambda>j. if j < Suc k \<and> due now (accounts ! j)
                  then (Some (clock j), Some (status_of (refresh j)))
                  else bookkeeping (accounts ! j)) [0..<length accounts]"
      using True kl by (intro upt_update_map) (auto simp: less_Suc_eq)
    with True du book sweep_step_views(2)[OF idx, of refresh clock now] show ?thesis by simp
  next
    case False
    have "map (\<lambda>j. if j < k \<and> due now (accounts ! j)
                  then (Some (clock j), Some (status_of (refresh j)))
                  else bookkeeping (accounts ! j)) [0..<length accounts]
        = map (\<lambda>j. if j < Suc k \<and> due now (accounts ! j)
                  then (Some (clock j), Some (status_of (refresh j)))
                  else bookkeeping (accounts ! j)) [0..<length accounts]"
      using False by (intro upt_same_map) (auto simp: less_Suc_eq)
    with False du book sweep_step_views(2)[OF idx, of refresh clock now] show ?thesis by simp
  qed
  from step ident' book' show ?case by simp
qed

subsection \<open>C4: the active account after a renewal\<close>




subsection \<open>C3: the outcome of every renewal is recorded\<close>


section \<open>Properties of the tool-result merge\<close>

lemma extend_existing_distinct:
  assumes "distinct (map toolUseId merged)"
    and "\<forall>m \<in> set merged. content m \<noteq> None"
  shows "extend_existing tid extra merged =
     Inr (map (\<lambda>m. if toolUseId m = tid
                     then m\<lparr>content := Some (content_or_empty m @ extra)\<rparr> else m) merged)"
  using assms
proof (induction merged)
  case Nil
  then show ?case by simp
next
  case (Cons m ms)
  show ?case
  proof (cases "toolUseId m = tid")
    case True
    with Cons.prems(1) have "\<forall>x \<in> set ms. toolUseId x \<noteq> tid"
      by (auto simp: image_iff)
    then have "map (\<lambda>m. if toolUseId m = tid
                     then m\<lparr>content := Some (content_or_empty m @ extra)\<rparr> else m) ms = ms"
      by (induction ms) auto
    with True Cons.prems show ?thesis
      by (auto simp: content_or_empty_def)
  next
    case False
    with Cons show ?thesis by simp
  qed
qed

text \<open>What the loop has built once the remaining records are consumed.\<close>

lemma merge_loop_group:
  assumes "distinct (map toolUseId merged)"
    and "seen = toolUseId ` set merged"
    and "\<forall>m \<in> set merged. content m \<noteq> None"
    and "\<forall>r \<in> set results. content r \<noteq> None"
  shows "merge_loop results merged seen =
     Inr (map (\<lambda>m. m\<lparr>content := Some (content_or_empty m
              @ concat (map content_or_empty
                  (filter (\<lambda>r. toolUseId r = toolUseId m) results)))\<rparr>) merged
          @ group_by_id (filter (\<lambda>r. toolUseId r \<notin> seen) results))"
  using assms
proof (induction results arbitrary: merged seen)
  case Nil
  have "map (\<lambda>m. m\<lparr>content := Some (content_or_empty m)\<rparr>) merged = merged"
    using Nil.prems(3) by (induction merged) (auto simp: content_or_empty_def)
  then show ?case by simp
next
  case (Cons r rs)
  let ?tid = "toolUseId r"
  show ?case
  proof (cases "?tid \<in> seen")
    case True
    let ?merged' = "map (\<lambda>m. if toolUseId m = ?tid
        then m\<lparr>content := Some (content_or_empty m @ content_or_empty r)\<rparr> else m) merged"
    have ext: "extend_existing ?tid (content_or_empty r) merged = Inr ?merged'"
      using Cons.prems(1,3) by (rule extend_existing_distinct)
    have ids: "map toolUseId ?merged' = map toolUseId merged" by (induction merged) auto
    have d: "distinct (map toolUseId ?merged')" using Cons.prems(1) unfolding ids .
    have s: "seen = toolUseId ` set ?merged'"
      using Cons.prems(2) ids by (metis image_set)
    have c: "\<forall>m \<in> set ?merged'. content m \<noteq> None" using Cons.prems(3) by auto
    have rsc: "\<forall>x \<in> set rs. content x \<noteq> None" using Cons.prems(4) by simp
    have step: "merge_loop (r # rs) merged seen = merge_loop rs ?merged' seen"
      using True ext by simp
    have "map (\<lambda>m. m\<lparr>content := Some (content_or_empty m
              @ concat (map content_or_empty
                  (filter (\<lambda>x. toolUseId x = toolUseId m) rs)))\<rparr>) ?merged'
        = map (\<lambda>m. m\<lparr>content := Some (content_or_empty m
              @ concat (map content_or_empty
                  (filter (\<lambda>x. toolUseId x = toolUseId m) (r # rs))))\<rparr>) merged"
      by (induction merged) (auto simp: content_or_empty_def)
    with Cons.IH[OF d s c rsc] step True show ?thesis by simp
  next
    case False
    have d: "distinct (map toolUseId (merged @ [r]))"
      using Cons.prems(1,2) False by auto
    have s: "insert ?tid seen = toolUseId ` set (merged @ [r])"
      using Cons.prems(2) by auto
    have c: "\<forall>m \<in> set (merged @ [r]). content m \<noteq> None" using Cons.prems(3,4) by auto
    have rsc: "\<forall>x \<in> set rs. content x \<noteq> None" using Cons.prems(4) by simp
    have step: "merge_loop (r # rs) merged seen = merge_loop rs (merged @ [r]) (insert ?tid seen)"
      using False by simp
    have m: "map (\<lambda>m. m\<lparr>content := Some (content_or_empty m
              @ concat (map content_or_empty
                  (filter (\<lambda>x. toolUseId x = toolUseId m) rs)))\<rparr>) merged
        = map (\<lambda>m. m\<lparr>content := Some (content_or_empty m
              @ concat (map content_or_empty
                  (filter (\<lambda>x. toolUseId x = toolUseId m) (r # rs))))\<rparr>) merged"
      using Cons.prems(2) False by (intro map_cong) auto
    have f1: "filter (\<lambda>x. toolUseId x = ?tid) (filter (\<lambda>x. toolUseId x \<notin> seen) rs)
        = filter (\<lambda>x. toolUseId x = ?tid) rs"
      using False by (induction rs) auto
    have f2: "filter (\<lambda>x. toolUseId x \<noteq> ?tid) (filter (\<lambda>x. toolUseId x \<notin> seen) rs)
        = filter (\<lambda>x. toolUseId x \<notin> insert ?tid seen) rs"
      by (induction rs) auto
    show ?thesis
      using Cons.IH[OF d s c rsc] step False m f1 f2 by simp
  qed
qed

lemma merge_tool_results_group:
  assumes "\<forall>r \<in> set tool_results. content r \<noteq> None"
  shows "merge_tool_results tool_results = Inr (group_by_id tool_results)"
proof (cases "tool_results = []")
  case True
  then show ?thesis by (simp add: merge_tool_results_def)
next
  case False
  have "merge_loop tool_results [] {} = Inr (group_by_id tool_results)"
    using merge_loop_group[of "[]" "{}" tool_results] assms by simp
  with False show ?thesis by (simp add: merge_tool_results_def)
qed

lemma group_by_id_ids_subset: "toolUseId ` set (group_by_id rs) = toolUseId ` set rs"
proof (induction rs rule: group_by_id.induct)
  case 1
  then show ?case by simp
next
  case (2 first later)
  then show ?case by auto
qed

lemma group_by_id_distinct: "distinct (map toolUseId (group_by_id rs))"
proof (induction rs rule: group_by_id.induct)
  case 1
  then show ?case by simp
next
  case (2 first later)
  have "toolUseId first \<notin> toolUseId ` set (group_by_id (filter (\<lambda>r. toolUseId r \<noteq> toolUseId first) later))"
    unfolding group_by_id_ids_subset by auto
  with 2 show ?case by simp
qed

lemma find_filter_implied:
  "(\<And>x. P x \<Longrightarrow> Q x) \<Longrightarrow> find P (filter Q xs) = find P xs"
  by (induction xs) auto

lemma filter_filter_implied:
  "(\<And>x. P x \<Longrightarrow> Q x) \<Longrightarrow> filter P (filter Q xs) = filter P xs"
  by (induction xs) auto

lemma group_by_id_member:
  assumes "g \<in> set (group_by_id rs)"
  shows "content g = Some (concat (map content_or_empty
            (filter (\<lambda>r. toolUseId r = toolUseId g) rs)))
    \<and> (\<exists>f. find (\<lambda>r. toolUseId r = toolUseId g) rs = Some f \<and> other g = other f)"
  using assms
proof (induction rs rule: group_by_id.induct)
  case 1
  then show ?case by simp
next
  case (2 first later)
  let ?others = "filter (\<lambda>r. toolUseId r \<noteq> toolUseId first) later"
  show ?case
  proof (cases "g \<in> set (group_by_id ?others)")
    case True
    then have "toolUseId g \<in> toolUseId ` set ?others"
      using group_by_id_ids_subset[of ?others] by blast
    then have ne: "toolUseId g \<noteq> toolUseId first" by auto
    have f: "filter (\<lambda>r. toolUseId r = toolUseId g) ?others
        = filter (\<lambda>r. toolUseId r = toolUseId g) later"
      using ne by (intro filter_filter_implied) auto
    have fi: "find (\<lambda>r. toolUseId r = toolUseId g) ?others
        = find (\<lambda>r. toolUseId r = toolUseId g) later"
      using ne by (intro find_filter_implied) auto
    from "2.IH"[OF True] f fi ne show ?thesis by auto
  next
    case False
    with "2.prems" have "g = first\<lparr>content := Some (content_or_empty first
        @ concat (map content_or_empty (filter (\<lambda>r. toolUseId r = toolUseId first) later)))\<rparr>"
      by simp
    then show ?thesis by simp
  qed
qed

subsection \<open>C6: tool results are grouped by invocation id\<close>

text \<open>
  C6: for every list of tool-result records of the current turn, each carrying a content
  list, the merge returns the records grouped by invocation id: in the result every
  invocation id of the input occurs, and occurs once; the record of an id carries the
  content entries of all input records with that id, in their original order, and its
  other fields are those of the first input record with that id. The two records
  \<open>{t1, [X]}\<close> and \<open>{t1, [Y]}\<close> become the one record \<open>{t1, [X, Y]}\<close>.
\<close>

theorem C6_tool_results_grouped:
  assumes "\<forall>r \<in> set tool_results. content r \<noteq> None"
  shows "merge_tool_results tool_results = Inr (group_by_id tool_results)
    \<and> distinct (map toolUseId (group_by_id tool_results))
    \<and> toolUseId ` set (group_by_id tool_results) = toolUseId ` set tool_results
    \<and> (\<forall>g \<in> set (group_by_id tool_results).
          content g = Some (concat (map content_or_empty
            (filter (\<lambda>r. toolUseId r = toolUseId g) tool_results)))
          \<and> (\<exists>f. find (\<lambda>r. toolUseId r = toolUseId g) tool_results = Some f
                \<and> other g = other f))"
proof (intro conjI ballI)
  show "merge_tool_results tool_results = Inr (group_by_id tool_results)"
    using assms by (rule merge_tool_results_group)
  show "distinct (map toolUseId (group_by_id tool_results))"
    by (rule group_by_id_distinct)
  show "toolUseId ` set (group_by_id tool_results) = toolUseId ` set tool_results"
    by (rule group_by_id_ids_subset)
next
  fix g
  assume g: "g \<in> set (group_by_id tool_results)"
  show "content g = Some (concat (map content_or_empty
      (filter (\<lambda>r. toolUseId r = toolUseId g) tool_results)))"
    using group_by_id_member[OF g] by blast
  show "\<exists>f. find (\<lambda>r. toolUseId r = toolUseId g) tool_results = Some f \<and> other g = other f"
    using group_by_id_member[OF g] by blast
qed

theorem C6_tool_results_grouped_witness:
  "merge_tool_results
     [\<lparr>toolUseId = Some ''t1'', content = Some [''X''], other = ''success''\<rparr>,
      \<lparr>toolUseId = Some ''t1'', content = Some [''Y''], other = ''error''\<rparr>]
   = Inr [\<lparr>toolUseId = Some ''t1'', content = Some [''X'', ''Y''], other = ''success''\<rparr>]"
proof -
  let ?rs = "[\<lparr>toolUseId = Some ''t1'', content = Some [''X''], other = ''success''\<rparr>,
      \<lparr>toolUseId = Some ''t1'', content = Some [''Y''], other = ''error''\<rparr>]"
  have "\<forall>r \<in> set ?rs. content r \<noteq> None" by simp
  from C6_tool_results_grouped[OF this]
  have "merge_tool_results ?rs = Inr (group_by_id ?rs)" by blast
  then show ?thesis by (simp add: content_or_empty_def)
qed

subsection \<open>C7: the redacted listing\<close>

lemma window_hits_dot:
  assumes sub: "sublist w (p @ ''...'' @ s)"
    and p: "length p = 10" and s: "length s = 4" and w: "10 < length w"
  shows "CHR ''.'' \<in> set w"
proof -
  from sub obtain ps ss where eq: "p @ ''...'' @ s = ps @ w @ ss"
    by (auto simp: sublist_def)
  then have "length (p @ ''...'' @ s) = length (ps @ w @ ss)" by simp
  with p s w have lps: "length ps \<le> 6" by simp
  have "(p @ ''...'' @ s) ! 10 = CHR ''.''"
    using p by (simp add: nth_append)
  with eq have "(ps @ w @ ss) ! 10 = CHR ''.''" by simp
  moreover have k: "10 - length ps < length w" using w by arith
  moreover have "(ps @ w @ ss) ! 10 = w ! (10 - length ps)"
    using lps k by (simp add: nth_append)
  ultimately have "w ! (10 - length ps) = CHR ''.''" by simp
  with k show ?thesis by (metis nth_mem)
qed

lemma redacted_no_long_substring:
  assumes "14 < length token" and "CHR ''.'' \<notin> set token"
    and "sublist w (take 10 token @ ''...'' @ drop (length token - 4) token)"
    and "sublist w token"
  shows "length w \<le> 10"
proof (rule ccontr)
  assume "\<not> length w \<le> 10"
  then have "10 < length w" by simp
  with assms(1,3) have "CHR ''.'' \<in> set w"
    by (intro window_hits_dot[where p = "take 10 token" and s = "drop (length token - 4) token"]) simp_all
  moreover from assms(4) have "set w \<subseteq> set token" by (rule set_mono_sublist)
  ultimately show False using assms(2) by auto
qed

lemma get_all_accounts_length: "length (get_all_accounts accounts) = length accounts"
  by (simp add: get_all_accounts_def)

lemma get_all_accounts_nth:
  assumes "i < length accounts"
  shows "get_all_accounts accounts ! i =
    (accounts ! i)\<lparr>
      refresh_token :=
        (if 14 < length (refresh_token (accounts ! i))
         then take 10 (refresh_token (accounts ! i)) @ ''...''
              @ drop (length (refresh_token (accounts ! i)) - 4) (refresh_token (accounts ! i))
         else if refresh_token (accounts ! i) = [] then [] else ''***''),
      client_secret := (if client_secret (accounts ! i) = [] then [] else ''***'')\<rparr>"
  using assms by (cases "accounts ! i") (auto simp: get_all_accounts_def Let_def)

text \<open>
  C7, as stated, fails in two places. The listing masks a field only when it is not
  empty (\<open>if acc_dict['refresh_token']:\<close>), so an empty refresh token is shown
  empty and not as the mask. And a refresh token that has three dots after its tenth
  character and four characters after them is its own redaction: the listing shows all 17
  characters of \<open>0123456789...abcd\<close>.
\<close>

theorem C7_counterexample:
  "map refresh_token
     (get_all_accounts
       [\<lparr>acc_id = ''a'', refresh_token = ''0123456789...abcd'', client_id = ''ca'',
         client_secret = ''sa'', profile_arn = None, name = None, is_active = True,
         created_at = ''t0''\<rparr>,
        \<lparr>acc_id = ''b'', refresh_token = [], client_id = ''cb'',
         client_secret = ''sb'', profile_arn = None, name = None, is_active = False,
         created_at = ''t1''\<rparr>])
     = [''0123456789...abcd'', []]
   \<and> 14 < length ''0123456789...abcd''"
  by (simp add: get_all_accounts_def)

text \<open>
  C7 (amended): the listing has one entry per account, in order. An entry shows a refresh
  token longer than 14 characters as its first 10 characters, three dots and its last 4
  characters, a non-empty one of at most 14 characters as \<open>***\<close>, and an empty one as
  empty; it shows a non-empty client secret as \<open>***\<close> and an empty one as empty, so the
  shown secret has at most 3 characters. If the refresh token contains no dot, the shown
  token and the refresh token have no common substring longer than 10 characters.
\<close>

theorem C7_redacted_listing:
  "length (get_all_accounts accounts) = length accounts
   \<and> (\<forall>i < length accounts.
        refresh_token (get_all_accounts accounts ! i) =
          (if 14 < length (refresh_token (accounts ! i))
           then take 10 (refresh_token (accounts ! i)) @ ''...''
                @ drop (length (refresh_token (accounts ! i)) - 4) (refresh_token (accounts ! i))
           else if refresh_token (accounts ! i) = [] then [] else ''***'')
        \<and> client_secret (get_all_accounts accounts ! i) =
          (if client_secret (accounts ! i) = [] then [] else ''***'')
        \<and> length (client_secret (get_all_accounts accounts ! i)) \<le> 3
        \<and> (CHR ''.'' \<notin> set (refresh_token (accounts ! i)) \<longrightarrow>
             (\<forall>w. sublist w (refresh_token (get_all_accounts accounts ! i))
                    \<and> sublist w (refresh_token (accounts ! i))
                  \<longrightarrow> length w \<le> 10)))"
proof (intro conjI allI impI)
  show "length (get_all_accounts accounts) = length accounts"
    by (rule get_all_accounts_length)
next
  fix i
  assume i: "i < length accounts"
  let ?tok = "refresh_token (accounts ! i)"
  let ?shown = "get_all_accounts accounts ! i"
  show tok: "refresh_token ?shown =
      (if 14 < length ?tok
       then take 10 ?tok @ ''...'' @ drop (length ?tok - 4) ?tok
       else if ?tok = [] then [] else ''***'')"
    by (simp add: get_all_accounts_nth[OF i])
  show "client_secret ?shown = (if client_secret (accounts ! i) = [] then [] else ''***'')"
    by (simp add: get_all_accounts_nth[OF i])
  show "length (client_secret ?shown) \<le> 3"
    by (simp add: get_all_accounts_nth[OF i])
  fix w
  assume nodot: "CHR ''.'' \<notin> set ?tok"
    and sub: "sublist w (refresh_token ?shown) \<and> sublist w ?tok"
  show "length w \<le> 10"
  proof (cases "14 < length ?tok")
    case True
    with sub tok have "sublist w (take 10 ?tok @ ''...'' @ drop (length ?tok - 4) ?tok)"
      by simp
    with True nodot sub show ?thesis
      by (intro redacted_no_long_substring[of ?tok w]) simp_all
  next
    case False
    with tok have "length (refresh_token ?shown) \<le> 3" by simp
    moreover from sub have "length w \<le> length (refresh_token ?shown)"
      by (simp add: sublist_length_le)
    ultimately show ?thesis by simp
  qed
qed

theorem C7_redacted_listing_witness:
  "(0::nat) < length
     [\<lparr>acc_id = ''a'', refresh_token = ''abcdefghijklmnopqrst'', client_id = ''ca'',
       client_secret = ''s3cret'', profile_arn = None, name = None, is_active = True,
       created_at = ''t0''\<rparr>]
   \<and> CHR ''.'' \<notin> set ''abcdefghijklmnopqrst''
   \<and> refresh_token (get_all_accounts
       [\<lparr>acc_id = ''a'', refresh_token = ''abcdefghijklmnopqrst'', client_id = ''ca'',
         client_secret = ''s3cret'', profile_arn = None, name = None, is_active = True,
         created_at = ''t0''\<rparr>] ! 0) = ''abcdefghij...qrst''
   \<and> client_secret (get_all_accounts
       [\<lparr>acc_id = ''a'', refresh_token = ''abcdefghijklmnopqrst'', client_id = ''ca'',
         client_secret = ''s3cret'', profile_arn = None, name = None, is_active = True,
         created_at = ''t0''\<rparr>] ! 0) = ''***''
   \<and> sublist ''abcdefghij'' ''abcdefghij...qrst''
   \<and> sublist ''abcdefghij'' ''abcdefghijklmnopqrst''
   \<and> length ''abcdefghij'' \<le> (10::nat)"
  using C7_redacted_listing
    [of "[\<lparr>acc_id = ''a'', refresh_token = ''abcdefghijklmnopqrst'', client_id = ''ca'',
       client_secret = ''s3cret'', profile_arn = None, name = None, is_active = True,
       created_at = ''t0''\<rparr>]"]
  by (simp add: sublist_Cons_right)

section \<open>Properties of the token renewal\<close>

subsection \<open>C8: the outcomes of a renewal\<close>

text \<open>
  C8, as stated, takes the lifetime from \<open>expiresIn\<close> whenever the key is present. The
  source tests \<open>if expires_in\<close>, so a reply with \<open>expiresIn = 0\<close> gets the default of
  3600 seconds: renewed at time 1000, the token expires at 4600 and not at 1000. The
  same truth tests treat an empty \<open>accessToken\<close> as missing and an empty
  \<open>refreshToken\<close> as no rotation.
\<close>

theorem C8_counterexample:
  "auth_refresh_token 1000
     (\<lambda>request. Reply 200
        (Some \<lparr>accessToken = Some ''tok'', refreshToken = None, expiresIn = Some 0\<rparr>))
     \<lparr>cfg_refresh_token = ''r0'', cfg_client_id = ''c'', cfg_client_secret = ''s'',
      token_endpoint = ''https://oidc/token'', access_token = None, token_expires_at = None\<rparr>
   = Inr (True,
     \<lparr>cfg_refresh_token = ''r0'', cfg_client_id = ''c'', cfg_client_secret = ''s'',
      token_endpoint = ''https://oidc/token'', access_token = Some ''tok'',
      token_expires_at = Some 4600\<rparr>)"
  by (simp add: auth_refresh_token_def update_global_config_def)

text \<open>
  C8 (amended): a renewal fails with \<open>TokenRefreshError\<close> for every transport error,
  every status outside 200..299, and every 2xx reply whose body is not a JSON object or
  whose \<open>accessToken\<close> is missing or empty. On a 2xx reply with a non-empty
  \<open>accessToken\<close> it returns \<open>True\<close> and stores the new access token, replaces the
  stored refresh credential if and only if the reply carries a non-empty
  \<open>refreshToken\<close>, and sets the expiry to \<open>expiresIn\<close> seconds from now when
  \<open>expiresIn\<close> is present and not 0, and to 3600 seconds from now when it is absent
  or 0. The client id, the client secret and the endpoint are left as they are.
\<close>

theorem C8_renew_outcomes:
  "(post (refresh_request config) = RequestError msg \<longrightarrow>
      auth_refresh_token now post config = Inl (TokenRefreshError (NetworkFailure msg)))
   \<and> (post (refresh_request config) = Reply status body
        \<and> \<not> (200 \<le> status \<and> status < 300) \<longrightarrow>
      auth_refresh_token now post config = Inl (TokenRefreshError (HTTPStatusFailure status)))
   \<and> (post (refresh_request config) = Reply status body
        \<and> 200 \<le> status \<and> status < 300
        \<and> (body = None \<or> (\<exists>r. body = Some r \<and> (accessToken r = None \<or> accessToken r = Some []))) \<longrightarrow>
      auth_refresh_token now post config = Inl (TokenRefreshError UnknownFailure))
   \<and> (post (refresh_request config) = Reply status (Some r)
        \<and> 200 \<le> status \<and> status < 300
        \<and> accessToken r = Some tok \<and> tok \<noteq> [] \<longrightarrow>
      auth_refresh_token now post config =
        Inr (True,
          config\<lparr>access_token := Some tok,
                 cfg_refresh_token :=
                   (case refreshToken r of
                      None \<Rightarrow> cfg_refresh_token config
                    | Some new \<Rightarrow> if new = [] then cfg_refresh_token config else new),
                 token_expires_at :=
                   Some (now + (case expiresIn r of
                                  None \<Rightarrow> 3600
                                | Some n \<Rightarrow> if n = 0 then 3600 else n))\<rparr>))"
  by (auto simp: auth_refresh_token_def update_global_config_def Let_def
      split: option.splits)

theorem C8_renew_outcomes_witness:
  "auth_refresh_token 1000
     (\<lambda>request. if req_url request = ''https://oidc/token''
        then Reply 200
          (Some \<lparr>accessToken = Some ''tok'', refreshToken = Some ''r1'', expiresIn = Some 900\<rparr>)
        else RequestError ''unreachable'')
     \<lparr>cfg_refresh_token = ''r0'', cfg_client_id = ''c'', cfg_client_secret = ''s'',
      token_endpoint = ''https://oidc/token'', access_token = None, token_expires_at = None\<rparr>
   = Inr (True,
     \<lparr>cfg_refresh_token = ''r1'', cfg_client_id = ''c'', cfg_client_secret = ''s'',
      token_endpoint = ''https://oidc/token'', access_token = Some ''tok'',
      token_expires_at = Some 1900\<rparr>)
   \<and> auth_refresh_token 1000
     (\<lambda>request. if req_url request = ''https://oidc/token''
        then Reply 200
          (Some \<lparr>accessToken = Some ''tok'', refreshToken = Some ''r1'', expiresIn = Some 900\<rparr>)
        else RequestError ''unreachable'')
     \<lparr>cfg_refresh_token = ''r0'', cfg_client_id = ''c'', cfg_client_secret = ''s'',
      token_endpoint = ''https://elsewhere'', access_token = None, token_expires_at = None\<rparr>
   = Inl (TokenRefreshError (NetworkFailure ''unreachable''))"
proof -
  let ?post = "\<lambda>request. if req_url request = ''https://oidc/token''
        then Reply 200
          (Some \<lparr>accessToken = Some ''tok'', refreshToken = Some ''r1'', expiresIn = Some 900\<rparr>)
        else RequestError ''unreachable''"
  let ?cfg = "\<lparr>cfg_refresh_token = ''r0'', cfg_client_id = ''c'', cfg_client_secret = ''s'',
      token_endpoint = ''https://oidc/token'', access_token = None, token_expires_at = None\<rparr>"
  let ?cfg2 = "\<lparr>cfg_refresh_token = ''r0'', cfg_client_id = ''c'', cfg_client_secret = ''s'',
      token_endpoint = ''https://elsewhere'', access_token = None, token_expires_at = None\<rparr>"
  have a: "?post (refresh_request ?cfg) = Reply 200
      (Some \<lparr>accessToken = Some ''tok'', refreshToken = Some ''r1'', expiresIn = Some 900\<rparr>)"
    by (simp add: refresh_request_def)
  have b: "?post (refresh_request ?cfg2) = RequestError ''unreachable''"
    by (simp add: refresh_request_def)
  from C8_renew_outcomes[of ?post ?cfg _ 1000 200 _
      "\<lparr>accessToken = Some ''tok'', refreshToken = Some ''r1'', expiresIn = Some 900\<rparr>" "''tok''"] a
  have 1: "auth_refresh_token 1000 ?post ?cfg = Inr (True,
     \<lparr>cfg_refresh_token = ''r1'', cfg_client_id = ''c'', cfg_client_secret = ''s'',
      token_endpoint = ''https://oidc/token'', access_token = Some ''tok'',
      token_expires_at = Some 1900\<rparr>)"
    by simp
  from C8_renew_outcomes[of ?post ?cfg2 "''unreachable''" 1000] b
  have 2: "auth_refresh_token 1000 ?post ?cfg2
      = Inl (TokenRefreshError (NetworkFailure ''unreachable''))"
    by simp
  from 1 2 show ?thesis by (rule conjI)
qed

subsection \<open>C9: the renewal request\<close>

text \<open>
  C9 asks for a freshly generated invocation id on every renewal request. The source
  imports \<open>uuid\<close> and then writes a fixed string into the header, so any two renewal
  requests carry the same invocation id, whatever the configuration. The rest of the
  claim holds: the request is a POST to the token endpoint whose JSON body carries
  \<open>grantType = refresh_token\<close>, the refresh token, the client id and the client secret,
  with the fixed identification headers.
\<close>

theorem C9_invocation_id_is_constant:
  "map_of (req_headers (refresh_request config1)) ''Amz-Sdk-Invocation-Id''
     = Some ''362523fb-ad17-428a-b3be-5a812faf0448''
   \<and> map_of (req_headers (refresh_request config1)) ''Amz-Sdk-Invocation-Id''
     = map_of (req_headers (refresh_request config2)) ''Amz-Sdk-Invocation-Id''
   \<and> req_method (refresh_request config1) = ''POST''
   \<and> req_url (refresh_request config1) = token_endpoint config1
   \<and> req_json (refresh_request config1) =
       [(''grantType'', ''refresh_token''),
        (''refreshToken'', cfg_refresh_token config1),
        (''clientId'', cfg_client_id config1),
        (''clientSecret'', cfg_client_secret config1)]
   \<and> map_of (req_headers (refresh_request config1)) ''Content-Type''
     = Some ''application/json''
   \<and> map_of (req_headers (refresh_request config1)) ''Amz-Sdk-Request''
     = Some ''attempt=1; max=3''"
  by (simp add: refresh_request_def)

end
